theory Spec2Isabelle
  imports Main
begin

section \<open>Characters and strings\<close>

text \<open>
  A formula is a JavaScript string, modelled as a \<^typ>\<open>string\<close>: one \<^typ>\<open>char\<close> per code
  unit, for the code units below 256. The character classes are the regular expressions of
  the source restricted to that range: \<^verbatim>\<open>\s\<close> is tab, line feed, vertical tab, form feed,
  carriage return, space and the no-break space; \<^verbatim>\<open>\d\<close> is the ten ASCII digits.
\<close>

definition is_space :: "char \<Rightarrow> bool" where
  "is_space c = (c \<in> set [CHR 0x09, CHR 0x0A, CHR 0x0B, CHR 0x0C, CHR 0x0D, CHR 0x20, CHR 0xA0])"

definition is_digit :: "char \<Rightarrow> bool" where
  "is_digit c = (c \<in> set ''0123456789'')"

definition is_lower :: "char \<Rightarrow> bool" where
  "is_lower c = (c \<in> set ''abcdefghijklmnopqrstuvwxyz'')"

definition is_upper :: "char \<Rightarrow> bool" where
  "is_upper c = (c \<in> set ''ABCDEFGHIJKLMNOPQRSTUVWXYZ'')"

text \<open>\<^verbatim>\<open>/[a-zA-Z_]/\<close> and \<^verbatim>\<open>/[a-zA-Z0-9_]/\<close>.\<close>

definition is_ident_start :: "char \<Rightarrow> bool" where
  "is_ident_start c = (is_lower c \<or> is_upper c \<or> c = CHR ''_'')"

definition is_ident_char :: "char \<Rightarrow> bool" where
  "is_ident_char c = (is_lower c \<or> is_upper c \<or> is_digit c \<or> c = CHR ''_'')"

text \<open>\<^verbatim>\<open>/\d/.test(c) || c === '.'\<close>, the continuation of a number.\<close>

definition is_number_char :: "char \<Rightarrow> bool" where
  "is_number_char c = (is_digit c \<or> c = CHR ''.'')"

text \<open>\<^verbatim>\<open>/[+\-*/&]/\<close>, and the characters that start a comparison operator.\<close>

definition is_arith_op :: "char \<Rightarrow> bool" where
  "is_arith_op c = (c \<in> set ''+-*/&'')"

definition is_compare_start :: "char \<Rightarrow> bool" where
  "is_compare_start c = (c = CHR ''='' \<or> c = CHR ''!'' \<or> c = CHR ''>'' \<or> c = CHR ''<'')"

text \<open>
  \<^verbatim>\<open>toUpperCase\<close>: the source applies it to identifiers only, which are ASCII, so the
  model maps the 26 lower-case letters and leaves every other character alone.
\<close>

definition to_upper :: "char \<Rightarrow> char" where
  "to_upper c =
     (case map_of (zip ''abcdefghijklmnopqrstuvwxyz'' ''ABCDEFGHIJKLMNOPQRSTUVWXYZ'') c of
        Some u \<Rightarrow> u
      | None \<Rightarrow> c)"

definition toUpperCase :: "string \<Rightarrow> string" where
  "toUpperCase s = map to_upper s"

text \<open>
  \<^verbatim>\<open>trim\<close> removes the whitespace at both ends; the same class as \<^verbatim>\<open>\s\<close>.
\<close>

definition trim :: "string \<Rightarrow> string" where
  "trim s = rev (dropWhile is_space (rev (dropWhile is_space s)))"

section \<open>The layout lexer (formatter.ts, tokenize)\<close>

datatype TokenType =
    T_function | T_field | T_string | T_number | T_operator
  | T_comma | T_paren_open | T_paren_close | T_whitespace | T_unknown

record Token =
  tok_type :: TokenType
  tok_value :: string
  tok_start :: nat
  tok_end :: nat

text \<open>
  The inner loops work on the input that is left: each returns the characters it consumed
  and the rest. \<open>scan_field\<close> runs to the first closing brace, which it includes, or to the
  end of the input.
\<close>

fun scan_field :: "string \<Rightarrow> string \<times> string" where
  "scan_field [] = ([], [])"
| "scan_field (c # cs) =
     (if c = CHR ''}'' then ([c], cs)
      else (c # fst (scan_field cs), snd (scan_field cs)))"

text \<open>
  \<open>scan_string q escaped\<close>: a character after a backslash is taken as it is, a backslash
  sets \<open>escaped\<close>, the quote \<open>q\<close> ends the literal and is included; an unterminated literal
  runs to the end of the input.
\<close>

fun scan_string :: "char \<Rightarrow> bool \<Rightarrow> string \<Rightarrow> string \<times> string" where
  "scan_string q escaped [] = ([], [])"
| "scan_string q escaped (c # cs) =
     (if escaped then (c # fst (scan_string q False cs), snd (scan_string q False cs))
      else if c = CHR 0x5C then (c # fst (scan_string q True cs), snd (scan_string q True cs))
      else if c = q then ([c], cs)
      else (c # fst (scan_string q False cs), snd (scan_string q False cs)))"

lemma scan_field_append: "fst (scan_field cs) @ snd (scan_field cs) = cs"
  by (induction cs) auto

lemma scan_string_append: "fst (scan_string q e cs) @ snd (scan_string q e cs) = cs"
  by (induction cs arbitrary: e) auto

lemma scan_field_length [simp]: "length (snd (scan_field cs)) \<le> length cs"
  by (induction cs) auto

lemma scan_string_length [simp]: "length (snd (scan_string q e cs)) \<le> length cs"
  by (induction cs arbitrary: e) (auto simp: le_SucI)

text \<open>
  One turn of the main loop at a character \<open>c\<close> that is not whitespace, with the cursor
  at \<open>i\<close> and \<open>cs\<close> the input after \<open>c\<close>: the token pushed and the input left. The branches
  are tried in the order of the source; in each the cursor ends at the token's end.
\<close>

definition scan_token :: "nat \<Rightarrow> char \<Rightarrow> string \<Rightarrow> Token \<times> string" where
  "scan_token i c cs =
     (if c = CHR ''{'' then
        (let v = c # fst (scan_field cs)
         in (\<lparr>tok_type = T_field, tok_value = v, tok_start = i, tok_end = i + length v\<rparr>,
             snd (scan_field cs)))
      else if c = CHR 0x22 \<or> c = CHR 0x27 then
        (let v = c # fst (scan_string c False cs)
         in (\<lparr>tok_type = T_string, tok_value = v, tok_start = i, tok_end = i + length v\<rparr>,
             snd (scan_string c False cs)))
      else if is_digit c then
        (let v = c # takeWhile is_number_char cs
         in (\<lparr>tok_type = T_number, tok_value = v, tok_start = i, tok_end = i + length v\<rparr>,
             dropWhile is_number_char cs))
      else if is_arith_op c then
        (\<lparr>tok_type = T_operator, tok_value = [c], tok_start = i, tok_end = i + 1\<rparr>, cs)
      else if is_compare_start c then
        (if cs \<noteq> [] \<and> hd cs = CHR ''='' then
           (\<lparr>tok_type = T_operator, tok_value = [c, hd cs], tok_start = i, tok_end = i + 2\<rparr>,
            tl cs)
         else
           (\<lparr>tok_type = T_operator, tok_value = [c], tok_start = i, tok_end = i + 1\<rparr>, cs))
      else if c = CHR ''('' then
        (\<lparr>tok_type = T_paren_open, tok_value = [c], tok_start = i, tok_end = i + 1\<rparr>, cs)
      else if c = CHR '')'' then
        (\<lparr>tok_type = T_paren_close, tok_value = [c], tok_start = i, tok_end = i + 1\<rparr>, cs)
      else if c = CHR '','' then
        (\<lparr>tok_type = T_comma, tok_value = [c], tok_start = i, tok_end = i + 1\<rparr>, cs)
      else if is_ident_start c then
        (let v = c # takeWhile is_ident_char cs; rest = dropWhile is_ident_char cs;
             j = i + length v
         in if rest \<noteq> [] \<and> hd rest = CHR ''('' then
              (\<lparr>tok_type = T_function, tok_value = toUpperCase v, tok_start = i, tok_end = j\<rparr>,
               rest)
            else
              (let upper = toUpperCase v
               in if upper = ''TRUE'' \<or> upper = ''FALSE'' then
                    (\<lparr>tok_type = T_number, tok_value = upper, tok_start = i, tok_end = j\<rparr>,
                     rest)
                  else
                    (\<lparr>tok_type = T_unknown, tok_value = v, tok_start = i, tok_end = j\<rparr>,
                     rest)))
      else
        (\<lparr>tok_type = T_unknown, tok_value = [c], tok_start = i, tok_end = i + 1\<rparr>, cs))"

lemma scan_token_length: "length (snd (scan_token i c cs)) \<le> length cs"
  unfolding scan_token_def Let_def
  by (simp add: length_dropWhile_le)

text \<open>
  \<open>tokenize_from i rest\<close> is the main loop at cursor \<open>i\<close>, with \<open>rest\<close> the input from \<open>i\<close> on:
  whitespace is skipped, any other character starts a token.
\<close>

function tokenize_from :: "nat \<Rightarrow> string \<Rightarrow> Token list" where
  "tokenize_from i [] = []"
| "tokenize_from i (c # cs) =
     (if is_space c then tokenize_from (i + 1) cs
      else fst (scan_token i c cs)
             # tokenize_from (tok_end (fst (scan_token i c cs))) (snd (scan_token i c cs)))"
  by pat_completeness auto
termination
  by (relation "measure (\<lambda>(i, s). length s)")
     (auto simp: le_imp_less_Suc scan_token_length)

definition tokenize :: "string \<Rightarrow> Token list" where
  "tokenize formula = tokenize_from 0 formula"

text \<open>The part of the input that a token spans, from its start offset to its end offset.\<close>

definition source_text :: "string \<Rightarrow> Token \<Rightarrow> string" where
  "source_text s t = take (tok_end t - tok_start t) (drop (tok_start t) s)"

section \<open>The display lexer (syntax-highlighter.ts, highlightAirtableFormula)\<close>

datatype HighlightType =
    H_function | H_field | H_string | H_number | H_operator | H_punctuation | H_text

record HighlightedToken =
  h_text :: string
  h_type :: HighlightType

lemma length_dropWhile2_le: "length (dropWhile P (dropWhile Q cs)) \<le> length cs"
  by (rule le_trans [OF length_dropWhile_le length_dropWhile_le])

text \<open>
  The same loop without offsets. Whitespace has a branch of its own, after the identifier
  branch; an identifier that is no function moves the cursor to \<open>j\<close>, past the whitespace
  that follows it. \<open>scan_highlight c cs\<close> is one turn: the token pushed and the input left.
\<close>

definition scan_highlight :: "char \<Rightarrow> string \<Rightarrow> HighlightedToken \<times> string" where
  "scan_highlight c cs =
     (if c = CHR ''{'' then
        (\<lparr>h_text = c # fst (scan_field cs), h_type = H_field\<rparr>, snd (scan_field cs))
      else if c = CHR 0x22 \<or> c = CHR 0x27 then
        (\<lparr>h_text = c # fst (scan_string c False cs), h_type = H_string\<rparr>,
         snd (scan_string c False cs))
      else if is_digit c then
        (\<lparr>h_text = c # takeWhile is_number_char cs, h_type = H_number\<rparr>,
         dropWhile is_number_char cs)
      else if is_arith_op c then
        (\<lparr>h_text = [c], h_type = H_operator\<rparr>, cs)
      else if is_compare_start c then
        (if cs \<noteq> [] \<and> hd cs = CHR ''='' then
           (\<lparr>h_text = [c, hd cs], h_type = H_operator\<rparr>, tl cs)
         else (\<lparr>h_text = [c], h_type = H_operator\<rparr>, cs))
      else if c = CHR ''('' \<or> c = CHR '')'' \<or> c = CHR '','' then
        (\<lparr>h_text = [c], h_type = H_punctuation\<rparr>, cs)
      else if is_ident_start c then
        (let text = c # takeWhile is_ident_char cs; rest = dropWhile is_ident_char cs;
             after = dropWhile is_space rest
         in if after \<noteq> [] \<and> hd after = CHR ''('' then
              (\<lparr>h_text = toUpperCase text, h_type = H_function\<rparr>, rest)
            else
              (let upper = toUpperCase text
               in if upper = ''TRUE'' \<or> upper = ''FALSE'' then
                    (\<lparr>h_text = upper, h_type = H_number\<rparr>, after)
                  else (\<lparr>h_text = text, h_type = H_text\<rparr>, after)))
      else if is_space c then
        (\<lparr>h_text = c # takeWhile is_space cs, h_type = H_text\<rparr>, dropWhile is_space cs)
      else
        (\<lparr>h_text = [c], h_type = H_text\<rparr>, cs))"

lemma scan_highlight_length: "length (snd (scan_highlight c cs)) \<le> length cs"
  unfolding scan_highlight_def Let_def
  by (simp add: length_dropWhile_le length_dropWhile2_le)

function highlight_from :: "string \<Rightarrow> HighlightedToken list" where
  "highlight_from [] = []"
| "highlight_from (c # cs) =
     fst (scan_highlight c cs) # highlight_from (snd (scan_highlight c cs))"
  by pat_completeness auto
termination
  by (relation "measure length") (auto simp: le_imp_less_Suc scan_highlight_length)

definition highlightAirtableFormula :: "string \<Rightarrow> HighlightedToken list" where
  "highlightAirtableFormula formula = highlight_from formula"

text \<open>
  The identifier branch is the one place where the cursor moves past characters that no
  token holds: \<open>plain_ident_before_space c cs\<close> says that the turn at \<open>c\<close> is an identifier
  that is no function and that whitespace follows it. \<open>spaces_kept s\<close> says that no turn
  of the loop on \<open>s\<close> is such a turn.
\<close>

definition plain_ident_before_space :: "char \<Rightarrow> string \<Rightarrow> bool" where
  "plain_ident_before_space c cs =
     (is_ident_start c \<and>
      (let rest = dropWhile is_ident_char cs; after = dropWhile is_space rest
       in rest \<noteq> [] \<and> is_space (hd rest) \<and> \<not> (after \<noteq> [] \<and> hd after = CHR ''('')))"

function spaces_kept :: "string \<Rightarrow> bool" where
  "spaces_kept [] = True"
| "spaces_kept (c # cs) =
     (\<not> plain_ident_before_space c cs \<and> spaces_kept (snd (scan_highlight c cs)))"
  by pat_completeness auto
termination
  by (relation "measure length") (auto simp: le_imp_less_Suc scan_highlight_length)

text \<open>
  \<open>slice_of t raw\<close>: the token's text is the piece \<open>raw\<close> of the input as it stands, or,
  for a function or a number token, that piece in upper case.
\<close>

definition slice_of :: "HighlightedToken \<Rightarrow> string \<Rightarrow> bool" where
  "slice_of t raw =
     (h_text t = raw
      \<or> ((h_type t = H_function \<or> h_type t = H_number) \<and> h_text t = toUpperCase raw))"

section \<open>The pretty-printer (formatter.ts, formatAirtableFormula)\<close>

text \<open>
  The source has no \<^verbatim>\<open>throw\<close>. The one call that can raise is \<^verbatim>\<open>'\t'.repeat(n)\<close>, a
  \<^verbatim>\<open>RangeError\<close> for a negative count, so \<open>addIndent\<close> returns a sum and the indent level is
  an integer, as the JavaScript number is.
\<close>

datatype error = RangeError

record FormatState =
  result :: string
  indentLevel :: int
  isMultiLine :: bool

definition addIndent :: "int \<Rightarrow> error + string" where
  "addIndent level = (if level < 0 then Inl RangeError else Inr (replicate (nat level) (CHR 0x09)))"

text \<open>
  \<open>count_loop\<close> is the loop of \<^verbatim>\<open>countParameters\<close> over the tokens from \<open>j\<close> on, with the
  depth and the count so far.
\<close>

fun count_loop :: "Token list \<Rightarrow> int \<Rightarrow> nat \<Rightarrow> nat" where
  "count_loop [] depth paramCount = paramCount"
| "count_loop (t # ts) depth paramCount =
     (if depth > 0 then
        (let d1 = (if tok_type t = T_paren_open then depth + 1 else depth);
             d2 = (if tok_type t = T_paren_close then d1 - 1 else d1);
             n = (if d2 = 1 \<and> tok_type t = T_comma then paramCount + 1 else paramCount)
         in count_loop ts d2 n)
      else paramCount)"

definition countParameters :: "Token list \<Rightarrow> nat \<Rightarrow> nat" where
  "countParameters tokens startIndex = count_loop (drop (startIndex + 1) tokens) 1 0"

definition shouldBreakAfterParenOpen :: "Token list \<Rightarrow> nat \<Rightarrow> bool" where
  "shouldBreakAfterParenOpen tokens index = (countParameters tokens index > 0)"

text \<open>
  \<open>ends_blank r\<close>: the last character of the result is a space, a line feed or a tab.
  The last character of an empty result is \<^verbatim>\<open>undefined\<close> in the source, which differs
  from all three.
\<close>

definition ends_blank :: "string \<Rightarrow> bool" where
  "ends_blank r = (r \<noteq> [] \<and> (last r = CHR 0x20 \<or> last r = CHR 0x0A \<or> last r = CHR 0x09))"

text \<open>One turn of the emission loop, for the token at index \<open>i\<close> (with \<open>i < length tokens\<close>).\<close>

definition emit_token :: "Token list \<Rightarrow> nat \<Rightarrow> FormatState \<Rightarrow> error + FormatState" where
  "emit_token tokens i st =
     (let token = tokens ! i;
          nextToken = (if i + 1 < length tokens then Some (tokens ! (i + 1)) else None);
          prevToken = (if i > 0 then Some (tokens ! (i - 1)) else None)
      in case tok_type token of
           T_paren_open \<Rightarrow>
             (let r = result st @ tok_value token
              in if shouldBreakAfterParenOpen tokens i then
                   (let level = indentLevel st + 1
                    in case addIndent level of
                         Inl e \<Rightarrow> Inl e
                       | Inr ind \<Rightarrow>
                           Inr \<lparr>result = r @ CHR 0x0A # ind, indentLevel = level,
                                isMultiLine = True\<rparr>)
                 else Inr (st\<lparr>result := r\<rparr>))
         | T_paren_close \<Rightarrow>
             (let level = (if indentLevel st > 0 then max 0 (indentLevel st - 1)
                           else indentLevel st);
                  multi = (if level = 0 then False else isMultiLine st)
              in if isMultiLine st \<and> map_option tok_type prevToken \<noteq> Some T_paren_open then
                   (case addIndent level of
                      Inl e \<Rightarrow> Inl e
                    | Inr ind \<Rightarrow>
                        Inr \<lparr>result = result st @ CHR 0x0A # ind @ tok_value token,
                             indentLevel = level, isMultiLine = multi\<rparr>)
                 else
                   Inr \<lparr>result = result st @ tok_value token, indentLevel = level,
                        isMultiLine = multi\<rparr>)
         | T_comma \<Rightarrow>
             (let r = result st @ tok_value token
              in if nextToken \<noteq> None \<and> map_option tok_type nextToken \<noteq> Some T_paren_close then
                   (case addIndent (indentLevel st) of
                      Inl e \<Rightarrow> Inl e
                    | Inr ind \<Rightarrow> Inr (st\<lparr>result := r @ CHR 0x0A # ind\<rparr>))
                 else Inr (st\<lparr>result := r\<rparr>))
         | T_operator \<Rightarrow>
             (let r1 = (if prevToken \<noteq> None
                           \<and> map_option tok_type prevToken \<noteq> Some T_paren_open
                           \<and> map_option tok_type prevToken \<noteq> Some T_comma
                           \<and> map_option tok_type prevToken \<noteq> Some T_operator
                           \<and> \<not> ends_blank (result st)
                        then result st @ [CHR 0x20] else result st);
                  r2 = r1 @ tok_value token;
                  r3 = (if nextToken \<noteq> None
                           \<and> map_option tok_type nextToken \<noteq> Some T_paren_close
                           \<and> map_option tok_type nextToken \<noteq> Some T_comma
                           \<and> map_option tok_type nextToken \<noteq> Some T_operator
                        then r2 @ [CHR 0x20] else r2)
              in Inr (st\<lparr>result := r3\<rparr>))
         | T_function \<Rightarrow> Inr (st\<lparr>result := result st @ tok_value token\<rparr>)
         | T_field \<Rightarrow> Inr (st\<lparr>result := result st @ tok_value token\<rparr>)
         | T_string \<Rightarrow> Inr (st\<lparr>result := result st @ tok_value token\<rparr>)
         | T_number \<Rightarrow> Inr (st\<lparr>result := result st @ tok_value token\<rparr>)
         | T_unknown \<Rightarrow> Inr (st\<lparr>result := result st @ tok_value token\<rparr>)
         | T_whitespace \<Rightarrow> Inr st)"

function emit_loop :: "Token list \<Rightarrow> nat \<Rightarrow> FormatState \<Rightarrow> error + FormatState" where
  "emit_loop tokens i st =
     (if i < length tokens then
        (case emit_token tokens i st of
           Inl e \<Rightarrow> Inl e
         | Inr st' \<Rightarrow> emit_loop tokens (i + 1) st')
      else Inr st)"
  by pat_completeness auto
termination
  by (relation "measure (\<lambda>(tokens, i, st). length tokens - i)") auto

subsection \<open>The cleanup pass\<close>

text \<open>\<^verbatim>\<open>split('\n')\<close> and \<^verbatim>\<open>join('\n')\<close>.\<close>

fun split_lines :: "string \<Rightarrow> string list" where
  "split_lines [] = [[]]"
| "split_lines (c # cs) =
     (if c = CHR 0x0A then [] # split_lines cs
      else (case split_lines cs of
              l # ls \<Rightarrow> (c # l) # ls
            | [] \<Rightarrow> [[c]]))"

fun join_lines :: "string list \<Rightarrow> string" where
  "join_lines [] = []"
| "join_lines [l] = l"
| "join_lines (l # ls) = l @ CHR 0x0A # join_lines ls"

text \<open>\<^verbatim>\<open>line.replace(/[ ]+$/, '')\<close>: the spaces at the end of the line go.\<close>

definition strip_trailing_spaces :: "string \<Rightarrow> string" where
  "strip_trailing_spaces line = rev (dropWhile (\<lambda>c. c = CHR 0x20) (rev line))"

text \<open>
  \<^verbatim>\<open>replace(/([^ \t])\s{2,}([^ \t])/g, '$1 $2')\<close>. After a first character that is neither
  space nor tab, \<^verbatim>\<open>\s{2,}\<close> takes the whole run of whitespace and gives characters back,
  down to two, until the character after it is neither space nor tab: \<open>ws_match cs n\<close>
  tries the lengths \<open>n\<close>, \<open>n - 1\<close>, ... and returns the first that fits. The search goes
  on after the match, so the second group of one match is never the first of the next.
\<close>

fun ws_match :: "string \<Rightarrow> nat \<Rightarrow> nat option" where
  "ws_match cs n =
     (if n < 2 then None
      else if n < length cs \<and> cs ! n \<noteq> CHR 0x20 \<and> cs ! n \<noteq> CHR 0x09 then Some n
      else ws_match cs (n - 1))"

function collapse_spaces :: "string \<Rightarrow> string" where
  "collapse_spaces [] = []"
| "collapse_spaces (c # cs) =
     (if c \<noteq> CHR 0x20 \<and> c \<noteq> CHR 0x09 then
        (case ws_match cs (length (takeWhile is_space cs)) of
           Some n \<Rightarrow> c # CHR 0x20 # cs ! n # collapse_spaces (drop (n + 1) cs)
         | None \<Rightarrow> c # collapse_spaces cs)
      else c # collapse_spaces cs)"
  by pat_completeness auto
termination
  by (relation "measure length") auto

text \<open>
  \<^verbatim>\<open>replace(/\n\s*\n+/g, '\n')\<close>. After a line feed, \<^verbatim>\<open>\s*\<close> takes the whole run of
  whitespace and gives characters back until a line feed follows: the match ends at the
  last line feed of the run. \<open>blank_match cs\<close> is the number of characters matched after
  the first line feed, 0 when the run has no line feed.
\<close>

definition blank_match :: "string \<Rightarrow> nat" where
  "blank_match cs =
     (let w = takeWhile is_space cs
      in length w - length (takeWhile (\<lambda>x. x \<noteq> CHR 0x0A) (rev w)))"

function collapse_blank_lines :: "string \<Rightarrow> string" where
  "collapse_blank_lines [] = []"
| "collapse_blank_lines (c # cs) =
     (if c = CHR 0x0A \<and> blank_match cs > 0 then
        CHR 0x0A # collapse_blank_lines (drop (blank_match cs) cs)
      else c # collapse_blank_lines cs)"
  by pat_completeness auto
termination
  by (relation "measure length") auto

definition clean_line :: "string \<Rightarrow> string" where
  "clean_line line = collapse_spaces (strip_trailing_spaces line)"

definition cleanup :: "string \<Rightarrow> string" where
  "cleanup r = trim (collapse_blank_lines (join_lines (map clean_line (split_lines r))))"

definition init_state :: FormatState where
  "init_state = \<lparr>result = [], indentLevel = 0, isMultiLine = False\<rparr>"

definition formatAirtableFormula :: "string \<Rightarrow> error + string" where
  "formatAirtableFormula formula =
     (if trim formula = [] then Inr []
      else
        (let tokens = tokenize formula
         in if tokens = [] then Inr formula
            else (case emit_loop tokens 0 init_state of
                    Inl e \<Rightarrow> Inl e
                  | Inr st \<Rightarrow> Inr (cleanup (result st)))))"

text \<open>
  The spec's count of a call's top-level commas, over the tokens \<open>ts\<close> that follow the
  call's opening parenthesis. \<open>depth_from d ts k\<close> is the nesting depth at which token \<open>k\<close>
  stands when \<open>ts\<close> starts at depth \<open>d\<close>: \<open>d\<close> plus the opening minus the closing
  parentheses before it. The call itself is depth 1. Its matching closing parenthesis is
  the first one that stands at depth 1 (\<open>close_from\<close> gives its index, or the length of
  \<open>ts\<close> when the call is never closed), and a top-level comma is a comma at depth 1 before
  it.
\<close>

definition depth_from :: "int \<Rightarrow> Token list \<Rightarrow> nat \<Rightarrow> int" where
  "depth_from d ts k =
     d + int (length (filter (\<lambda>t. tok_type t = T_paren_open) (take k ts)))
       - int (length (filter (\<lambda>t. tok_type t = T_paren_close) (take k ts)))"

definition close_from :: "int \<Rightarrow> Token list \<Rightarrow> nat" where
  "close_from d ts =
     length (takeWhile (\<lambda>k. \<not> (tok_type (ts ! k) = T_paren_close \<and> depth_from d ts k = 1))
               [0..<length ts])"

definition commas_from :: "int \<Rightarrow> Token list \<Rightarrow> nat" where
  "commas_from d ts =
     length (filter (\<lambda>k. tok_type (ts ! k) = T_comma \<and> depth_from d ts k = 1)
               [0..<close_from d ts])"


text \<open>The depth after a token that stands at depth \<open>d\<close>.\<close>

definition depth_step :: "int \<Rightarrow> Token \<Rightarrow> int" where
  "depth_step d t = (if tok_type t = T_paren_open then d + 1
                     else if tok_type t = T_paren_close then d - 1 else d)"

text \<open>
  Formatting the formatter's own output, an error of the first pass being the result; and
  what the emission loop reads of a token list: the kinds and the texts, not the offsets.
\<close>

definition format_twice :: "string \<Rightarrow> error + string" where
  "format_twice s =
     (case formatAirtableFormula s of
        Inl e \<Rightarrow> Inl e
      | Inr r \<Rightarrow> formatAirtableFormula r)"

definition kinds_and_texts :: "Token list \<Rightarrow> (TokenType \<times> string) list" where
  "kinds_and_texts tokens = map (\<lambda>t. (tok_type t, tok_value t)) tokens"

text \<open>
  The formula that the page shows as its placeholder, and its formatted text: three
  nested calls, comparisons, and a string literal with spaces.
\<close>

definition placeholder_formula :: string where
  \<open>placeholder_formula =
     ''IF(AND({Status}="Active",{Count}>0),CONCATENATE({Name}," - ",{Code}),"Inactive")''\<close>

definition placeholder_formatted :: string where
  \<open>placeholder_formatted =
     ''IF('' @ [CHR 0x0A, CHR 0x09]
     @ ''AND('' @ [CHR 0x0A, CHR 0x09, CHR 0x09]
     @ ''{Status} = "Active",'' @ [CHR 0x0A, CHR 0x09, CHR 0x09]
     @ ''{Count} > 0'' @ [CHR 0x0A, CHR 0x09]
     @ ''),'' @ [CHR 0x0A, CHR 0x09]
     @ ''CONCATENATE('' @ [CHR 0x0A, CHR 0x09, CHR 0x09]
     @ ''{Name},'' @ [CHR 0x0A, CHR 0x09, CHR 0x09]
     @ ''" - ",'' @ [CHR 0x0A, CHR 0x09, CHR 0x09]
     @ ''{Code}'' @ [CHR 0x0A, CHR 0x09]
     @ ''),'' @ [CHR 0x0A, CHR 0x09]
     @ ''"Inactive"'' @ [CHR 0x0A]
     @ '')''\<close>

text \<open>
  Balanced parentheses, read off the token list: the depth never goes below zero and ends
  at zero.
\<close>

fun balanced_from :: "Token list \<Rightarrow> nat \<Rightarrow> bool" where
  "balanced_from [] depth = (depth = 0)"
| "balanced_from (t # ts) depth =
     (if tok_type t = T_paren_open then balanced_from ts (depth + 1)
      else if tok_type t = T_paren_close then depth > 0 \<and> balanced_from ts (depth - 1)
      else balanced_from ts depth)"

text \<open>
  The conditions under which formatting twice is formatting once, read off the formula.

  \<open>token_texts ts\<close> is the formula written without whitespace between its tokens: the
  texts of the tokens, one after the other.

  A text is \<open>tidy\<close> when it starts and ends with a character that is not whitespace and
  its whitespace is of two kinds only: a single space between two other characters, and
  a line feed that follows another character and has tabs only between it and the next
  other character. \<open>ok_pair a b\<close> says that \<open>b\<close> may stand after \<open>a\<close> in such a text.
\<close>

definition token_texts :: "Token list \<Rightarrow> string" where
  "token_texts ts = concat (map tok_value ts)"

definition ok_pair :: "char \<Rightarrow> char \<Rightarrow> bool" where
  "ok_pair a b =
     (if \<not> is_space a then \<not> is_space b \<or> b = CHR 0x20 \<or> b = CHR 0x0A
      else if a = CHR 0x20 then \<not> is_space b
      else if a = CHR 0x0A \<or> a = CHR 0x09 then b = CHR 0x09 \<or> \<not> is_space b
      else False)"

fun pairs_ok :: "string \<Rightarrow> bool" where
  "pairs_ok (a # b # cs) = (ok_pair a b \<and> pairs_ok (b # cs))"
| "pairs_ok _ = True"

definition tidy :: "string \<Rightarrow> bool" where
  "tidy x = (x \<noteq> [] \<and> \<not> is_space (hd x) \<and> \<not> is_space (last x) \<and> pairs_ok x)"

text \<open>
  The emission loop treats function names, fields, strings, numbers and unknown tokens
  alike, so \<open>layout_kind\<close> gives them one kind and leaves the other kinds as they are;
  \<open>shape\<close> is what remains of a token list: the layout kinds and the texts. The loop
  writes nothing between two such tokens that follow each other, nor between two
  operators. The \<open>segments\<close> of a shape are its entries with each run of such tokens and
  each run of operators joined into one.
\<close>

definition layout_kind :: "TokenType \<Rightarrow> TokenType" where
  "layout_kind ty =
     (if ty = T_function \<or> ty = T_field \<or> ty = T_string \<or> ty = T_number then T_unknown
      else ty)"

definition shape :: "Token list \<Rightarrow> (TokenType \<times> string) list" where
  "shape ts = map (\<lambda>t. (layout_kind (tok_type t), tok_value t)) ts"

fun segments :: "(TokenType \<times> string) list \<Rightarrow> (TokenType \<times> string) list" where
  "segments ((k, u) # (k', v) # rest) =
     (if k = k' \<and> (k = T_unknown \<or> k = T_operator) then segments ((k, u @ v) # rest)
      else (k, u) # segments ((k', v) # rest))"
| "segments [x] = [x]"
| "segments [] = []"

text \<open>
  Three formulas for the examples: one with whitespace between its tokens and function
  names in lower case and mixed case; one whose spacing changes the tokens but not the
  segments; and that one without the whitespace between its tokens.
\<close>

definition spaced_formula :: string where
  \<open>spaced_formula = ''if( {a}>=1 , Sum( x,y ) , "b c" )''\<close>

definition respaced_formula :: string where
  "respaced_formula = ''IF ( {a} > = 1 , 1 2 )''"

definition joined_formula :: string where
  "joined_formula = ''IF({a}>=1,12)''"

text \<open>
  The definitions that follow serve the proofs. \<open>fits ty v r\<close>: started on the text \<open>v\<close>
  with \<open>r\<close> after it, one turn of the layout lexer gives a token of kind \<open>ty\<close> and text
  \<open>v\<close> and leaves \<open>r\<close>.
\<close>

definition fits :: "TokenType \<Rightarrow> string \<Rightarrow> string \<Rightarrow> bool" where
  "fits ty v r =
     (v \<noteq> [] \<and> \<not> is_space (hd v)
      \<and> tok_type (fst (scan_token 0 (hd v) (tl v @ r))) = ty
      \<and> tok_value (fst (scan_token 0 (hd v) (tl v @ r))) = v
      \<and> snd (scan_token 0 (hd v) (tl v @ r)) = r)"

text \<open>
  What one turn of the emission loop writes around the text of token \<open>i\<close>: \<open>lead\<close> before
  it (the line feed and indent before a closing parenthesis, the space before an
  operator) and \<open>trail\<close> after it (the line feed and indent after an opening parenthesis
  or a comma, the space after an operator). Each of them is a \<open>gap\<close>: nothing, one space,
  or a line feed and tabs.
\<close>

definition lead :: "Token list \<Rightarrow> nat \<Rightarrow> FormatState \<Rightarrow> string" where
  "lead ts i st =
     (if tok_type (ts ! i) = T_paren_close \<and> isMultiLine st
         \<and> \<not> (0 < i \<and> tok_type (ts ! (i - 1)) = T_paren_open)
      then CHR 0x0A # replicate (nat (if indentLevel st > 0 then max 0 (indentLevel st - 1)
                                      else indentLevel st)) (CHR 0x09)
      else if tok_type (ts ! i) = T_operator \<and> 0 < i
         \<and> tok_type (ts ! (i - 1)) \<notin> {T_paren_open, T_comma, T_operator}
         \<and> \<not> ends_blank (result st)
      then [CHR 0x20]
      else [])"

definition trail :: "Token list \<Rightarrow> nat \<Rightarrow> FormatState \<Rightarrow> string" where
  "trail ts i st =
     (if tok_type (ts ! i) = T_paren_open \<and> shouldBreakAfterParenOpen ts i
      then CHR 0x0A # replicate (nat (indentLevel st + 1)) (CHR 0x09)
      else if tok_type (ts ! i) = T_comma \<and> i + 1 < length ts
         \<and> tok_type (ts ! (i + 1)) \<noteq> T_paren_close
      then CHR 0x0A # replicate (nat (indentLevel st)) (CHR 0x09)
      else if tok_type (ts ! i) = T_operator \<and> i + 1 < length ts
         \<and> tok_type (ts ! (i + 1)) \<notin> {T_paren_close, T_comma, T_operator}
      then [CHR 0x20]
      else [])"

definition gap :: "string \<Rightarrow> bool" where
  "gap w = (w = [] \<or> w = [CHR 0x20] \<or> (\<exists>k. w = CHR 0x0A # replicate k (CHR 0x09)))"

text \<open>
  What holds of the state of the emission loop before token \<open>i\<close> when the token texts are
  tidy: the result so far is tidy but for its end, and it ends in whitespace only when
  a token that is not a closing parenthesis follows. A line of such a text is
  \<open>line_tidy\<close>.
\<close>

definition well_spaced :: "Token list \<Rightarrow> nat \<Rightarrow> FormatState \<Rightarrow> bool" where
  "well_spaced ts i st =
     (0 \<le> indentLevel st \<and> pairs_ok (result st)
      \<and> (i = 0 \<longrightarrow> result st = [] \<and> \<not> isMultiLine st)
      \<and> (0 < i \<longrightarrow> result st \<noteq> [] \<and> \<not> is_space (hd (result st)))
      \<and> (result st \<noteq> [] \<and> is_space (last (result st)) \<longrightarrow>
            (last (result st) = CHR 0x20 \<or> last (result st) = CHR 0x0A
               \<or> last (result st) = CHR 0x09)
            \<and> i < length ts \<and> tok_type (ts ! i) \<noteq> T_paren_close))"

definition line_tidy :: "string \<Rightarrow> bool" where
  "line_tidy l = (pairs_ok l \<and> CHR 0x0A \<notin> set l \<and> (l = [] \<or> last l \<noteq> CHR 0x20))"

text \<open>
  The emission loop at one token, seen from the tokens around it: the layout kinds of the
  token before and of the token after; \<open>emit_first po t ts\<close>, the turn of the loop for the
  token \<open>t\<close> that stands after the token \<open>po\<close>, if there is one, and before the tokens
  \<open>ts\<close>; and \<open>emit_from po ts\<close>, the loop over the tokens \<open>ts\<close> that stand after \<open>po\<close>.
  \<open>token_of\<close> makes a token of a layout kind and a text.
\<close>

definition token_of :: "TokenType \<times> string \<Rightarrow> Token" where
  "token_of x = \<lparr>tok_type = fst x, tok_value = snd x, tok_start = 0, tok_end = 0\<rparr>"

definition prev_kind :: "Token list \<Rightarrow> nat \<Rightarrow> TokenType option" where
  "prev_kind ts i = (if 0 < i then Some (layout_kind (tok_type (ts ! (i - 1)))) else None)"

definition next_kind :: "Token list \<Rightarrow> nat \<Rightarrow> TokenType option" where
  "next_kind ts i =
     (if i + 1 < length ts then Some (layout_kind (tok_type (ts ! (i + 1)))) else None)"

definition hd_kind :: "Token list \<Rightarrow> TokenType option" where
  "hd_kind ts = (case ts of [] \<Rightarrow> None | t # _ \<Rightarrow> Some (layout_kind (tok_type t)))"

definition emit_first :: "Token option \<Rightarrow> Token \<Rightarrow> Token list \<Rightarrow> FormatState \<Rightarrow> error + FormatState" where
  "emit_first po t ts st =
     (case po of None \<Rightarrow> emit_token (t # ts) 0 st | Some p \<Rightarrow> emit_token (p # t # ts) 1 st)"

definition emit_from :: "Token option \<Rightarrow> Token list \<Rightarrow> FormatState \<Rightarrow> error + FormatState" where
  "emit_from po ts st =
     (case po of None \<Rightarrow> emit_loop ts 0 st | Some p \<Rightarrow> emit_loop (p # ts) 1 st)"

section \<open>Facts about one turn of the layout lexer\<close>

text \<open>The character classes that select a branch exclude each other.\<close>

lemma digit_class: "is_digit c \<Longrightarrow> c \<noteq> CHR ''{'' \<and> c \<noteq> CHR 0x22 \<and> c \<noteq> CHR 0x27 \<and> \<not> is_space c"
  by (auto simp: is_digit_def is_space_def)

lemma arith_class:
  "is_arith_op c \<Longrightarrow> c \<noteq> CHR ''{'' \<and> c \<noteq> CHR 0x22 \<and> c \<noteq> CHR 0x27 \<and> \<not> is_digit c \<and> \<not> is_space c"
  by (auto simp: is_arith_op_def is_digit_def is_space_def)

lemma compare_class:
  "is_compare_start c \<Longrightarrow> c \<noteq> CHR ''{'' \<and> c \<noteq> CHR 0x22 \<and> c \<noteq> CHR 0x27 \<and> \<not> is_digit c
     \<and> \<not> is_arith_op c \<and> \<not> is_space c"
  by (auto simp: is_compare_start_def is_arith_op_def is_digit_def is_space_def)

lemma punct_class:
  "c = CHR ''('' \<or> c = CHR '')'' \<or> c = CHR '','' \<Longrightarrow> c \<noteq> CHR ''{'' \<and> c \<noteq> CHR 0x22 \<and> c \<noteq> CHR 0x27
     \<and> \<not> is_digit c \<and> \<not> is_arith_op c \<and> \<not> is_compare_start c \<and> \<not> is_space c"
  by (auto simp: is_compare_start_def is_arith_op_def is_digit_def is_space_def)

lemma ident_start_class:
  "is_ident_start c \<Longrightarrow> c \<noteq> CHR ''{'' \<and> c \<noteq> CHR 0x22 \<and> c \<noteq> CHR 0x27 \<and> \<not> is_digit c
     \<and> \<not> is_arith_op c \<and> \<not> is_compare_start c \<and> c \<noteq> CHR ''('' \<and> c \<noteq> CHR '')'' \<and> c \<noteq> CHR '',''
     \<and> \<not> is_space c"
  unfolding is_ident_start_def is_lower_def is_upper_def is_compare_start_def is_arith_op_def
    is_digit_def is_space_def
  by auto

lemma scan_token_cases [case_names field string number arith compare2 compare1 popen pclose comma func bool ident other]:
  assumes "c = CHR ''{'' \<Longrightarrow>
      P (\<lparr>tok_type = T_field, tok_value = c # fst (scan_field cs), tok_start = i,
          tok_end = i + length (c # fst (scan_field cs))\<rparr>, snd (scan_field cs))"
    and "c = CHR 0x22 \<or> c = CHR 0x27 \<Longrightarrow>
      P (\<lparr>tok_type = T_string, tok_value = c # fst (scan_string c False cs), tok_start = i,
          tok_end = i + length (c # fst (scan_string c False cs))\<rparr>, snd (scan_string c False cs))"
    and "is_digit c \<Longrightarrow>
      P (\<lparr>tok_type = T_number, tok_value = c # takeWhile is_number_char cs, tok_start = i,
          tok_end = i + length (c # takeWhile is_number_char cs)\<rparr>, dropWhile is_number_char cs)"
    and "is_arith_op c \<Longrightarrow>
      P (\<lparr>tok_type = T_operator, tok_value = [c], tok_start = i, tok_end = i + 1\<rparr>, cs)"
    and "is_compare_start c \<Longrightarrow> cs \<noteq> [] \<Longrightarrow> hd cs = CHR ''='' \<Longrightarrow>
      P (\<lparr>tok_type = T_operator, tok_value = [c, hd cs], tok_start = i, tok_end = i + 2\<rparr>, tl cs)"
    and "is_compare_start c \<Longrightarrow> \<not> (cs \<noteq> [] \<and> hd cs = CHR ''='') \<Longrightarrow>
      P (\<lparr>tok_type = T_operator, tok_value = [c], tok_start = i, tok_end = i + 1\<rparr>, cs)"
    and "c = CHR ''('' \<Longrightarrow>
      P (\<lparr>tok_type = T_paren_open, tok_value = [c], tok_start = i, tok_end = i + 1\<rparr>, cs)"
    and "c = CHR '')'' \<Longrightarrow>
      P (\<lparr>tok_type = T_paren_close, tok_value = [c], tok_start = i, tok_end = i + 1\<rparr>, cs)"
    and "c = CHR '','' \<Longrightarrow>
      P (\<lparr>tok_type = T_comma, tok_value = [c], tok_start = i, tok_end = i + 1\<rparr>, cs)"
    and "is_ident_start c \<Longrightarrow> dropWhile is_ident_char cs \<noteq> [] \<Longrightarrow>
         hd (dropWhile is_ident_char cs) = CHR ''('' \<Longrightarrow>
      P (\<lparr>tok_type = T_function, tok_value = toUpperCase (c # takeWhile is_ident_char cs),
          tok_start = i, tok_end = i + length (c # takeWhile is_ident_char cs)\<rparr>,
         dropWhile is_ident_char cs)"
    and "is_ident_start c \<Longrightarrow>
         \<not> (dropWhile is_ident_char cs \<noteq> [] \<and> hd (dropWhile is_ident_char cs) = CHR ''('') \<Longrightarrow>
         toUpperCase (c # takeWhile is_ident_char cs) = ''TRUE''
           \<or> toUpperCase (c # takeWhile is_ident_char cs) = ''FALSE'' \<Longrightarrow>
      P (\<lparr>tok_type = T_number, tok_value = toUpperCase (c # takeWhile is_ident_char cs),
          tok_start = i, tok_end = i + length (c # takeWhile is_ident_char cs)\<rparr>,
         dropWhile is_ident_char cs)"
    and "is_ident_start c \<Longrightarrow>
         \<not> (dropWhile is_ident_char cs \<noteq> [] \<and> hd (dropWhile is_ident_char cs) = CHR ''('') \<Longrightarrow>
         \<not> (toUpperCase (c # takeWhile is_ident_char cs) = ''TRUE''
           \<or> toUpperCase (c # takeWhile is_ident_char cs) = ''FALSE'') \<Longrightarrow>
      P (\<lparr>tok_type = T_unknown, tok_value = c # takeWhile is_ident_char cs,
          tok_start = i, tok_end = i + length (c # takeWhile is_ident_char cs)\<rparr>,
         dropWhile is_ident_char cs)"
    and "\<not> is_ident_start c \<Longrightarrow>
      P (\<lparr>tok_type = T_unknown, tok_value = [c], tok_start = i, tok_end = i + 1\<rparr>, cs)"
  shows "P (scan_token i c cs)"
proof -
  consider (a) "c = CHR ''{''" | (b) "c = CHR 0x22 \<or> c = CHR 0x27" | (c) "is_digit c"
    | (d) "is_arith_op c" | (e) "is_compare_start c" | (f) "c = CHR ''(''" | (g) "c = CHR '')''"
    | (h) "c = CHR '',''" | (i) "is_ident_start c"
    | (j) "c \<noteq> CHR ''{''" "\<not> (c = CHR 0x22 \<or> c = CHR 0x27)" "\<not> is_digit c" "\<not> is_arith_op c"
          "\<not> is_compare_start c" "c \<noteq> CHR ''(''" "c \<noteq> CHR '')''" "c \<noteq> CHR '',''"
          "\<not> is_ident_start c"
    by blast
  then show ?thesis
  proof cases
    case a
    then show ?thesis using assms(1) by (simp add: scan_token_def)
  next
    case b
    then show ?thesis using assms(2) by (auto simp add: scan_token_def)
  next
    case c
    then show ?thesis using assms(3) digit_class [of c] by (simp add: scan_token_def)
  next
    case d
    then show ?thesis using assms(4) arith_class [of c] by (simp add: scan_token_def)
  next
    case e
    then show ?thesis using assms(5,6) compare_class [of c]
      by (cases "cs \<noteq> [] \<and> hd cs = CHR ''=''") (simp_all add: scan_token_def)
  next
    case f
    then show ?thesis using assms(7) punct_class [of c] by (simp add: scan_token_def)
  next
    case g
    then show ?thesis using assms(8) punct_class [of c] by (simp add: scan_token_def)
  next
    case h
    then show ?thesis using assms(9) punct_class [of c] by (simp add: scan_token_def)
  next
    case i
    note cl = ident_start_class [OF i]
    show ?thesis
    proof (cases "dropWhile is_ident_char cs \<noteq> [] \<and> hd (dropWhile is_ident_char cs) = CHR ''(''")
      case True
      then show ?thesis using assms(10) i cl by (simp add: scan_token_def)
    next
      case False
      show ?thesis
      proof (cases "toUpperCase (c # takeWhile is_ident_char cs) = ''TRUE''
           \<or> toUpperCase (c # takeWhile is_ident_char cs) = ''FALSE''")
        case True
        from assms(11) [OF i False True] show ?thesis using i cl False True
          by (auto simp add: scan_token_def Let_def)
      next
        case nb: False
        from assms(12) [OF i False nb] show ?thesis using i cl False nb
          by (auto simp add: scan_token_def Let_def)
      qed
    qed
  next
    case j
    then show ?thesis using assms(13) by (simp add: scan_token_def)
  qed
qed

lemma append_drop_length: "xs @ ys = zs \<Longrightarrow> ys = drop (length xs) zs"
  by auto

lemma scan_field_drop: "snd (scan_field cs) = drop (length (fst (scan_field cs))) cs"
  by (rule append_drop_length [OF scan_field_append])

lemma scan_string_drop: "snd (scan_string q e cs) = drop (length (fst (scan_string q e cs))) cs"
  by (rule append_drop_length [OF scan_string_append])

lemma scan_field_fst_length: "length (fst (scan_field cs)) \<le> length cs"
  by (induction cs) auto

lemma scan_string_fst_length: "length (fst (scan_string q e cs)) \<le> length cs"
  by (induction cs arbitrary: e) auto

text \<open>Every token starts at the cursor and ends where the rest of the input starts.\<close>

lemma scan_token_span:
  "tok_start (fst (scan_token i c cs)) = i
   \<and> (\<exists>k\<le>length cs. tok_end (fst (scan_token i c cs)) = i + 1 + k
          \<and> snd (scan_token i c cs) = drop k cs)"
proof (induction rule: scan_token_cases [of c _ cs i])
  case field
  then show ?case using scan_field_drop [of cs] scan_field_fst_length [of cs] by auto
next
  case string
  then show ?case using scan_string_drop [of c False cs] scan_string_fst_length [of c False cs] by auto
next
  case number
  then show ?case
    by (auto simp: dropWhile_eq_drop intro!: exI [of _ "length (takeWhile is_number_char cs)"] length_takeWhile_le)
next
  case compare2
  then show ?case by (auto simp: drop_Suc Suc_le_eq intro!: exI [of _ 1])
next
  case func
  then show ?case
    by (auto simp: dropWhile_eq_drop toUpperCase_def intro!: exI [of _ "length (takeWhile is_ident_char cs)"] length_takeWhile_le)
next
  case bool
  then show ?case
    by (auto simp: dropWhile_eq_drop toUpperCase_def intro!: exI [of _ "length (takeWhile is_ident_char cs)"] length_takeWhile_le)
next
  case ident
  then show ?case
    by (auto simp: dropWhile_eq_drop toUpperCase_def intro!: exI [of _ "length (takeWhile is_ident_char cs)"] length_takeWhile_le)
qed (auto intro!: exI [of _ 0])


lemma scan_token_function:
  "tok_type (fst (scan_token i c cs)) = T_function \<longrightarrow>
     snd (scan_token i c cs) \<noteq> [] \<and> hd (snd (scan_token i c cs)) = CHR ''(''"
  by (induction rule: scan_token_cases [of c _ cs i]) auto

lemma function_before_paren:
  "t \<in> set (tokenize_from i rest) \<Longrightarrow> tok_type t = T_function \<Longrightarrow>
     i \<le> tok_end t \<and> tok_end t - i < length rest \<and> rest ! (tok_end t - i) = CHR ''(''"
proof (induction i rest rule: tokenize_from.induct)
  case (1 i)
  then show ?case by simp
next
  case (2 i c cs)
  show ?case
  proof (cases "is_space c")
    case True
    with "2.prems" have "t \<in> set (tokenize_from (i + 1) cs)" by simp
    from "2.IH"(1) [OF True this "2.prems"(2)]
    have "i + 1 \<le> tok_end t" "tok_end t - (i + 1) < length cs"
      "cs ! (tok_end t - (i + 1)) = CHR ''(''" by auto
    then show ?thesis by (auto simp: nth_Cons')
  next
    case False
    let ?tok = "fst (scan_token i c cs)" and ?r = "snd (scan_token i c cs)"
    from scan_token_span [of i c cs] obtain k where
      k: "k \<le> length cs" "tok_end ?tok = i + 1 + k" "?r = drop k cs" by blast
    from "2.prems"(1) False have "t = ?tok \<or> t \<in> set (tokenize_from (tok_end ?tok) ?r)"
      by auto
    then show ?thesis
    proof
      assume t: "t = ?tok"
      with scan_token_function [of i c cs] "2.prems"(2) k(3)
      have "drop k cs \<noteq> []" "hd (drop k cs) = CHR ''(''" by auto
      then have "k < length cs" "cs ! k = CHR ''(''" by (auto simp: hd_drop_conv_nth)
      then show ?thesis using t k(2) by auto
    next
      assume "t \<in> set (tokenize_from (tok_end ?tok) ?r)"
      from "2.IH"(2) [OF False this "2.prems"(2)] k
      have a: "i + 1 + k \<le> tok_end t" "tok_end t - (i + 1 + k) < length cs - k"
        "drop k cs ! (tok_end t - (i + 1 + k)) = CHR ''(''" by auto
      from a(1,2) have b: "tok_end t - i = Suc (k + (tok_end t - (i + 1 + k)))" by arith
      from a(2) k(1) have "k + (tok_end t - (i + 1 + k)) < length cs" by arith
      then show ?thesis using a k(1) b by (auto simp: nth_Cons')
    qed
  qed
qed


declare emit_loop.simps [simp del]

section \<open>Facts about one turn of the display lexer\<close>

lemma scan_highlight_cases [case_names field string number arith compare2 compare1 punct func bool ident space other]:
  assumes "c = CHR ''{'' \<Longrightarrow>
      P (\<lparr>h_text = c # fst (scan_field cs), h_type = H_field\<rparr>, snd (scan_field cs))"
    and "c = CHR 0x22 \<or> c = CHR 0x27 \<Longrightarrow>
      P (\<lparr>h_text = c # fst (scan_string c False cs), h_type = H_string\<rparr>,
         snd (scan_string c False cs))"
    and "is_digit c \<Longrightarrow>
      P (\<lparr>h_text = c # takeWhile is_number_char cs, h_type = H_number\<rparr>,
         dropWhile is_number_char cs)"
    and "is_arith_op c \<Longrightarrow> P (\<lparr>h_text = [c], h_type = H_operator\<rparr>, cs)"
    and "is_compare_start c \<Longrightarrow> cs \<noteq> [] \<Longrightarrow> hd cs = CHR ''='' \<Longrightarrow>
      P (\<lparr>h_text = [c, hd cs], h_type = H_operator\<rparr>, tl cs)"
    and "is_compare_start c \<Longrightarrow> \<not> (cs \<noteq> [] \<and> hd cs = CHR ''='') \<Longrightarrow>
      P (\<lparr>h_text = [c], h_type = H_operator\<rparr>, cs)"
    and "c = CHR ''('' \<or> c = CHR '')'' \<or> c = CHR '','' \<Longrightarrow>
      P (\<lparr>h_text = [c], h_type = H_punctuation\<rparr>, cs)"
    and "is_ident_start c \<Longrightarrow>
         dropWhile is_space (dropWhile is_ident_char cs) \<noteq> [] \<Longrightarrow>
         hd (dropWhile is_space (dropWhile is_ident_char cs)) = CHR ''('' \<Longrightarrow>
      P (\<lparr>h_text = toUpperCase (c # takeWhile is_ident_char cs), h_type = H_function\<rparr>,
         dropWhile is_ident_char cs)"
    and "is_ident_start c \<Longrightarrow>
         \<not> (dropWhile is_space (dropWhile is_ident_char cs) \<noteq> []
            \<and> hd (dropWhile is_space (dropWhile is_ident_char cs)) = CHR ''('') \<Longrightarrow>
         toUpperCase (c # takeWhile is_ident_char cs) = ''TRUE''
           \<or> toUpperCase (c # takeWhile is_ident_char cs) = ''FALSE'' \<Longrightarrow>
      P (\<lparr>h_text = toUpperCase (c # takeWhile is_ident_char cs), h_type = H_number\<rparr>,
         dropWhile is_space (dropWhile is_ident_char cs))"
    and "is_ident_start c \<Longrightarrow>
         \<not> (dropWhile is_space (dropWhile is_ident_char cs) \<noteq> []
            \<and> hd (dropWhile is_space (dropWhile is_ident_char cs)) = CHR ''('') \<Longrightarrow>
         \<not> (toUpperCase (c # takeWhile is_ident_char cs) = ''TRUE''
           \<or> toUpperCase (c # takeWhile is_ident_char cs) = ''FALSE'') \<Longrightarrow>
      P (\<lparr>h_text = c # takeWhile is_ident_char cs, h_type = H_text\<rparr>,
         dropWhile is_space (dropWhile is_ident_char cs))"
    and "is_space c \<Longrightarrow>
      P (\<lparr>h_text = c # takeWhile is_space cs, h_type = H_text\<rparr>, dropWhile is_space cs)"
    and "\<not> is_ident_start c \<Longrightarrow> \<not> is_space c \<Longrightarrow> P (\<lparr>h_text = [c], h_type = H_text\<rparr>, cs)"
  shows "P (scan_highlight c cs)"
proof -
  consider (a) "c = CHR ''{''" | (b) "c = CHR 0x22 \<or> c = CHR 0x27" | (c) "is_digit c"
    | (d) "is_arith_op c" | (e) "is_compare_start c"
    | (f) "c = CHR ''('' \<or> c = CHR '')'' \<or> c = CHR '',''" | (i) "is_ident_start c"
    | (j) "c \<noteq> CHR ''{''" "\<not> (c = CHR 0x22 \<or> c = CHR 0x27)" "\<not> is_digit c" "\<not> is_arith_op c"
          "\<not> is_compare_start c" "\<not> (c = CHR ''('' \<or> c = CHR '')'' \<or> c = CHR '','')"
          "\<not> is_ident_start c"
    by blast
  then show ?thesis
  proof cases
    case a
    then show ?thesis using assms(1) by (simp add: scan_highlight_def)
  next
    case b
    then show ?thesis using assms(2) by (auto simp add: scan_highlight_def)
  next
    case c
    then show ?thesis using assms(3) digit_class [of c] by (simp add: scan_highlight_def)
  next
    case d
    then show ?thesis using assms(4) arith_class [of c] by (simp add: scan_highlight_def)
  next
    case e
    then show ?thesis using assms(5,6) compare_class [of c]
      by (cases "cs \<noteq> [] \<and> hd cs = CHR ''=''") (simp_all add: scan_highlight_def)
  next
    case f
    then show ?thesis using assms(7) [OF f] punct_class [OF f] by (auto simp add: scan_highlight_def)
  next
    case i
    note cl = ident_start_class [OF i]
    show ?thesis
    proof (cases "dropWhile is_space (dropWhile is_ident_char cs) \<noteq> []
            \<and> hd (dropWhile is_space (dropWhile is_ident_char cs)) = CHR ''(''")
      case True
      then show ?thesis using assms(8) i cl by (simp add: scan_highlight_def)
    next
      case False
      show ?thesis
      proof (cases "toUpperCase (c # takeWhile is_ident_char cs) = ''TRUE''
           \<or> toUpperCase (c # takeWhile is_ident_char cs) = ''FALSE''")
        case True
        from assms(9) [OF i False True] show ?thesis using i cl False True
          by (auto simp add: scan_highlight_def Let_def)
      next
        case nb: False
        from assms(10) [OF i False nb] show ?thesis using i cl False nb
          by (auto simp add: scan_highlight_def Let_def)
      qed
    qed
  next
    case j
    then show ?thesis using assms(11,12) by (cases "is_space c") (simp_all add: scan_highlight_def)
  qed
qed

lemma space_not_ident: "is_space x \<Longrightarrow> \<not> is_ident_char x"
  unfolding is_space_def is_ident_char_def is_lower_def is_upper_def is_digit_def by auto

lemma takeWhile_run:
  "\<forall>x\<in>set w. P x \<Longrightarrow> ys = [] \<or> \<not> P (hd ys) \<Longrightarrow>
     takeWhile P (w @ ys) = w \<and> dropWhile P (w @ ys) = ys"
  by (cases ys) (auto simp: takeWhile_append2 dropWhile_append2)

lemma display_function_step:
  assumes "is_ident_start c" "\<forall>x\<in>set w. is_ident_char x" "\<forall>x\<in>set ws. is_space x"
  shows "highlight_from (c # w @ ws @ CHR ''('' # rest) =
           \<lparr>h_text = toUpperCase (c # w), h_type = H_function\<rparr>
             # highlight_from (ws @ CHR ''('' # rest)"
proof -
  have np: "\<not> is_ident_char (CHR ''('')" "\<not> is_space (CHR ''('')"
    by (simp_all add: is_ident_char_def is_lower_def is_upper_def is_digit_def is_space_def)
  have "ws @ CHR ''('' # rest = [] \<or> \<not> is_ident_char (hd (ws @ CHR ''('' # rest))"
    using assms(3) np space_not_ident by (cases ws) auto
  from takeWhile_run [OF assms(2) this]
  have tw: "takeWhile is_ident_char (w @ ws @ CHR ''('' # rest) = w"
    and dw: "dropWhile is_ident_char (w @ ws @ CHR ''('' # rest) = ws @ CHR ''('' # rest"
    by simp_all
  have ds: "dropWhile is_space (ws @ CHR ''('' # rest) = CHR ''('' # rest"
    using takeWhile_run [OF assms(3), of "CHR ''('' # rest"] np by simp
  show ?thesis
    using ident_start_class [OF assms(1)] assms(1) np
    by (simp add: scan_highlight_def Let_def tw dw ds del: dropWhile_append)
qed

section \<open>Function detection\<close>

text \<open>
  Claim C4. In the layout lexer a function token ends exactly where an opening parenthesis
  stands in the input, so no whitespace lies between them: \<^verbatim>\<open>SUM (x)\<close> gives the plain
  identifier \<^verbatim>\<open>SUM\<close> and then the parenthesis. In the display lexer an identifier followed
  by any run of whitespace and an opening parenthesis is a function, as \<^verbatim>\<open>SUM\<close> in
  \<^verbatim>\<open>SUM (x)\<close> is.
\<close>

theorem function_detection:
  "(\<forall>t\<in>set (tokenize s). tok_type t = T_function \<longrightarrow>
       tok_end t < length s \<and> s ! tok_end t = CHR ''('')
   \<and> map (\<lambda>t. (tok_type t, tok_value t)) (tokenize ''SUM (x)'') =
       [(T_unknown, ''SUM''), (T_paren_open, ''(''), (T_unknown, ''x''), (T_paren_close, '')'')]
   \<and> (is_ident_start c \<and> (\<forall>x\<in>set w. is_ident_char x) \<and> (\<forall>x\<in>set ws. is_space x) \<longrightarrow>
        highlightAirtableFormula (c # w @ ws @ CHR ''('' # rest) =
          \<lparr>h_text = toUpperCase (c # w), h_type = H_function\<rparr>
            # highlightAirtableFormula (ws @ CHR ''('' # rest))
   \<and> map (\<lambda>t. (h_type t, h_text t)) (highlightAirtableFormula ''SUM (x)'') =
       [(H_function, ''SUM''), (H_text, '' ''), (H_punctuation, ''(''), (H_text, ''x''),
        (H_punctuation, '')'')]"
proof -
  have "\<forall>t\<in>set (tokenize s). tok_type t = T_function \<longrightarrow>
       tok_end t < length s \<and> s ! tok_end t = CHR ''(''"
    using function_before_paren [of _ 0 s] by (auto simp: tokenize_def)
  moreover have "map (\<lambda>t. (tok_type t, tok_value t)) (tokenize ''SUM (x)'') =
       [(T_unknown, ''SUM''), (T_paren_open, ''(''), (T_unknown, ''x''), (T_paren_close, '')'')]"
    by code_simp
  moreover have "map (\<lambda>t. (h_type t, h_text t)) (highlightAirtableFormula ''SUM (x)'') =
       [(H_function, ''SUM''), (H_text, '' ''), (H_punctuation, ''(''), (H_text, ''x''),
        (H_punctuation, '')'')]"
    by code_simp
  ultimately show ?thesis
    using display_function_step [of c w ws rest] by (simp add: highlightAirtableFormula_def)
qed

theorem function_detection_witness:
  "tok_type (hd (tokenize ''sum(x) + y (z)'')) = T_function
   \<and> tok_end (hd (tokenize ''sum(x) + y (z)'')) = 3
   \<and> ''sum(x) + y (z)'' ! 3 = CHR ''(''
   \<and> highlightAirtableFormula ''sum  (1)'' =
        \<lparr>h_text = ''SUM'', h_type = H_function\<rparr> # highlightAirtableFormula ''  (1)''"
proof -
  have tk: "map (\<lambda>t. (tok_type t, tok_end t)) (tokenize ''sum(x) + y (z)'') =
      [(T_function, 3), (T_paren_open, 4), (T_unknown, 5), (T_paren_close, 6), (T_operator, 8),
       (T_unknown, 10), (T_paren_open, 12), (T_unknown, 13), (T_paren_close, 14)]"
    by code_simp
  then have ne: "tokenize ''sum(x) + y (z)'' \<noteq> []" by auto
  then have mem: "hd (tokenize ''sum(x) + y (z)'') \<in> set (tokenize ''sum(x) + y (z)'')" by simp
  have h: "tok_type (hd (tokenize ''sum(x) + y (z)'')) = T_function"
    "tok_end (hd (tokenize ''sum(x) + y (z)'')) = 3"
    using tk ne by (auto simp: hd_map [symmetric] dest: arg_cong [where f = hd])
  have cls: "is_ident_start (CHR ''s'')" "\<forall>x\<in>set ''um''. is_ident_char x"
    "\<forall>x\<in>set ''  ''. is_space x"
    by (simp_all add: is_ident_start_def is_ident_char_def is_lower_def is_space_def)
  have up: "toUpperCase ''sum'' = ''SUM''" by code_simp
  from function_detection [of "''sum(x) + y (z)''" "CHR ''s''" "''um''" "''  ''" "''1)''"]
  show ?thesis using mem h cls up by auto
qed

section \<open>Breaking after an opening parenthesis\<close>

text \<open>
  The loop of \<^verbatim>\<open>countParameters\<close> computes the spec's count: started at a positive depth
  it adds the commas that stand at depth 1 before the matching closing parenthesis.
\<close>

lemma depth_from_0 [simp]: "depth_from d ts 0 = d"
  by (simp add: depth_from_def)

lemma depth_from_Suc [simp]: "depth_from d (t # ts) (Suc k) = depth_from (depth_step d t) ts k"
  by (simp add: depth_from_def depth_step_def)




lemma commas_from_Nil [simp]: "commas_from d [] = 0"
  by (simp add: commas_from_def close_from_def)

lemma count_loop_done: "d \<le> 0 \<Longrightarrow> count_loop ts d n = n"
  by (cases ts) auto






section \<open>Boolean literals\<close>

lemma to_upper_T: "to_upper c = CHR ''T'' \<Longrightarrow> c = CHR ''t'' \<or> c = CHR ''T''"
  unfolding to_upper_def by (simp split: if_splits)

lemma to_upper_F: "to_upper c = CHR ''F'' \<Longrightarrow> c = CHR ''f'' \<or> c = CHR ''F''"
  unfolding to_upper_def by (simp split: if_splits)

lemma upper_bool_start:
  "toUpperCase (c # xs) = ''TRUE'' \<or> toUpperCase (c # xs) = ''FALSE'' \<Longrightarrow> is_ident_start c"
proof -
  assume "toUpperCase (c # xs) = ''TRUE'' \<or> toUpperCase (c # xs) = ''FALSE''"
  then have "to_upper c = CHR ''T'' \<or> to_upper c = CHR ''F''"
    by (auto simp: toUpperCase_def)
  then have "c = CHR ''t'' \<or> c = CHR ''T'' \<or> c = CHR ''f'' \<or> c = CHR ''F''"
    using to_upper_T [of c] to_upper_F [of c] by blast
  then show ?thesis
    by (elim disjE) (simp_all add: is_ident_start_def is_lower_def is_upper_def)
qed

lemma take_scan_field: "take (length (fst (scan_field cs))) cs = fst (scan_field cs)"
  using scan_field_append [of cs] by (metis append_eq_conv_conj)

lemma take_scan_string: "take (length (fst (scan_string q e cs))) cs = fst (scan_string q e cs)"
  using scan_string_append [of q e cs] by (metis append_eq_conv_conj)

lemma take_takeWhile: "take (length (takeWhile P cs)) cs = takeWhile P cs"
  by (rule takeWhile_eq_take [symmetric])

lemma scan_token_bool:
  "tok_type (fst (scan_token i c cs)) \<noteq> T_function \<longrightarrow>
   (toUpperCase (take (tok_end (fst (scan_token i c cs)) - i) (c # cs)) = ''TRUE''
    \<or> toUpperCase (take (tok_end (fst (scan_token i c cs)) - i) (c # cs)) = ''FALSE'') \<longrightarrow>
   tok_type (fst (scan_token i c cs)) = T_number
   \<and> tok_value (fst (scan_token i c cs)) =
       toUpperCase (take (tok_end (fst (scan_token i c cs)) - i) (c # cs))"
proof (induction rule: scan_token_cases [of c _ cs i])
  case field
  then show ?case using upper_bool_start [of c] ident_start_class [of c] by auto
next
  case string
  then show ?case using upper_bool_start [of c] ident_start_class [of c] by auto
next
  case number
  then show ?case using upper_bool_start [of c] ident_start_class [of c] by auto
next
  case arith
  then show ?case using upper_bool_start [of c] ident_start_class [of c] by auto
next
  case compare2
  then show ?case using upper_bool_start [of c] ident_start_class [of c] by auto
next
  case compare1
  then show ?case using upper_bool_start [of c] ident_start_class [of c] by auto
next
  case popen
  then show ?case using upper_bool_start [of c] ident_start_class [of c] by auto
next
  case pclose
  then show ?case using upper_bool_start [of c] ident_start_class [of c] by auto
next
  case comma
  then show ?case using upper_bool_start [of c] ident_start_class [of c] by auto
next
  case func
  then show ?case by simp
next
  case bool
  then show ?case by (simp add: take_takeWhile)
next
  case ident
  then show ?case by (simp add: take_takeWhile)
next
  case other
  then show ?case using upper_bool_start [of c] by auto
qed

lemma tokens_span_bool:
  "t \<in> set (tokenize_from i rest) \<Longrightarrow>
     i \<le> tok_start t \<and> tok_start t \<le> tok_end t \<and> tok_end t \<le> i + length rest
     \<and> (tok_type t \<noteq> T_function \<longrightarrow>
        (toUpperCase (take (tok_end t - tok_start t) (drop (tok_start t - i) rest)) = ''TRUE''
         \<or> toUpperCase (take (tok_end t - tok_start t) (drop (tok_start t - i) rest)) = ''FALSE'') \<longrightarrow>
        tok_type t = T_number
        \<and> tok_value t = toUpperCase (take (tok_end t - tok_start t) (drop (tok_start t - i) rest)))"
proof (induction i rest rule: tokenize_from.induct)
  case (1 i)
  then show ?case by simp
next
  case (2 i c cs)
  show ?case
  proof (cases "is_space c")
    case True
    with "2.prems" have "t \<in> set (tokenize_from (i + 1) cs)" by simp
    from "2.IH"(1) [OF True this]
    have ih: "i + 1 \<le> tok_start t" "tok_start t \<le> tok_end t" "tok_end t \<le> i + 1 + length cs"
      "tok_type t \<noteq> T_function \<longrightarrow>
        (toUpperCase (take (tok_end t - tok_start t) (drop (tok_start t - (i + 1)) cs)) = ''TRUE''
         \<or> toUpperCase (take (tok_end t - tok_start t) (drop (tok_start t - (i + 1)) cs)) = ''FALSE'') \<longrightarrow>
        tok_type t = T_number
        \<and> tok_value t = toUpperCase (take (tok_end t - tok_start t) (drop (tok_start t - (i + 1)) cs))"
      by auto
    from ih(1) have "tok_start t - i = Suc (tok_start t - (i + 1))" by arith
    then have "drop (tok_start t - i) (c # cs) = drop (tok_start t - (i + 1)) cs" by simp
    with ih show ?thesis by auto
  next
    case False
    let ?tok = "fst (scan_token i c cs)" and ?r = "snd (scan_token i c cs)"
    from scan_token_span [of i c cs] obtain k where
      k: "tok_start ?tok = i" "k \<le> length cs" "tok_end ?tok = i + 1 + k" "?r = drop k cs" by blast
    from "2.prems"(1) False have "t = ?tok \<or> t \<in> set (tokenize_from (tok_end ?tok) ?r)"
      by auto
    then show ?thesis
    proof
      assume t: "t = ?tok"
      then show ?thesis using scan_token_bool [of i c cs] k by auto
    next
      assume "t \<in> set (tokenize_from (tok_end ?tok) ?r)"
      from "2.IH"(2) [OF False this] k
      have ih: "i + 1 + k \<le> tok_start t" "tok_start t \<le> tok_end t"
        "tok_end t \<le> i + 1 + k + (length cs - k)"
        "tok_type t \<noteq> T_function \<longrightarrow>
          (toUpperCase (take (tok_end t - tok_start t) (drop (tok_start t - (i + 1 + k)) (drop k cs))) = ''TRUE''
           \<or> toUpperCase (take (tok_end t - tok_start t) (drop (tok_start t - (i + 1 + k)) (drop k cs))) = ''FALSE'') \<longrightarrow>
          tok_type t = T_number
          \<and> tok_value t = toUpperCase (take (tok_end t - tok_start t) (drop (tok_start t - (i + 1 + k)) (drop k cs)))"
        by auto
      from ih(1) have e: "tok_start t - i = Suc (tok_start t - (i + 1 + k) + k)" by arith
      have "drop (tok_start t - i) (c # cs) = drop (tok_start t - (i + 1 + k)) (drop k cs)"
        unfolding e by simp
      with ih k(2) show ?thesis by auto
    qed
  qed
qed

lemma display_bool_step:
  assumes "is_ident_start c" "\<forall>x\<in>set w. is_ident_char x" "rest = [] \<or> \<not> is_ident_char (hd rest)"
    and "toUpperCase (c # w) = ''TRUE'' \<or> toUpperCase (c # w) = ''FALSE''"
    and "\<not> (dropWhile is_space rest \<noteq> [] \<and> hd (dropWhile is_space rest) = CHR ''('')"
  shows "highlight_from (c # w @ rest) =
           \<lparr>h_text = toUpperCase (c # w), h_type = H_number\<rparr>
             # highlight_from (dropWhile is_space rest)"
proof -
  from takeWhile_run [OF assms(2,3)]
  have tw: "takeWhile is_ident_char (w @ rest) = w"
    and dw: "dropWhile is_ident_char (w @ rest) = rest" by simp_all
  have "scan_highlight c (w @ rest) =
          (\<lparr>h_text = toUpperCase (c # w), h_type = H_number\<rparr>, dropWhile is_space rest)"
    using assms(1,4,5) ident_start_class [OF assms(1)]
    by (induction rule: scan_highlight_cases [of c _ "w @ rest"]) (auto simp: tw dw)
  then show ?thesis by simp
qed

lemma scan_highlight_text_no_bool:
  "h_type (fst (scan_highlight c cs)) = H_text \<longrightarrow>
     toUpperCase (h_text (fst (scan_highlight c cs))) \<noteq> ''TRUE''
     \<and> toUpperCase (h_text (fst (scan_highlight c cs))) \<noteq> ''FALSE''"
proof (induction rule: scan_highlight_cases [of c _ cs])
  case space
  then show ?case
    using upper_bool_start [of c "takeWhile is_space cs"] ident_start_class [of c] by auto
next
  case other
  then show ?case using upper_bool_start [of c "[]"] by auto
qed auto

lemma highlight_text_no_bool:
  "t \<in> set (highlight_from s) \<Longrightarrow> h_type t = H_text \<Longrightarrow>
     toUpperCase (h_text t) \<noteq> ''TRUE'' \<and> toUpperCase (h_text t) \<noteq> ''FALSE''"
proof (induction s rule: highlight_from.induct)
  case 1
  then show ?case by simp
next
  case (2 c cs)
  then show ?case using scan_highlight_text_no_bool [of c cs] by auto
qed

text \<open>
  Claim C7. Layout lexer: in every input, a token that is no function and whose source
  text reads \<^verbatim>\<open>TRUE\<close> or \<^verbatim>\<open>FALSE\<close> in any letter case is a number token with the
  upper-cased text. Display lexer: with the cursor at such an identifier that is no
  function, the token pushed is a number token with the upper-cased text; and in every
  input no text token is left that reads \<^verbatim>\<open>TRUE\<close> or \<^verbatim>\<open>FALSE\<close>.
\<close>

theorem boolean_normalised:
  "(\<forall>t\<in>set (tokenize s).
      tok_type t \<noteq> T_function
      \<and> (toUpperCase (source_text s t) = ''TRUE'' \<or> toUpperCase (source_text s t) = ''FALSE'') \<longrightarrow>
      tok_type t = T_number \<and> tok_value t = toUpperCase (source_text s t))
   \<and> (is_ident_start c \<and> (\<forall>x\<in>set w. is_ident_char x) \<and> (rest = [] \<or> \<not> is_ident_char (hd rest))
      \<and> (toUpperCase (c # w) = ''TRUE'' \<or> toUpperCase (c # w) = ''FALSE'')
      \<and> \<not> (dropWhile is_space rest \<noteq> [] \<and> hd (dropWhile is_space rest) = CHR ''('') \<longrightarrow>
      highlightAirtableFormula (c # w @ rest) =
        \<lparr>h_text = toUpperCase (c # w), h_type = H_number\<rparr>
          # highlightAirtableFormula (dropWhile is_space rest))
   \<and> (\<forall>t\<in>set (highlightAirtableFormula s).
        h_type t = H_text \<longrightarrow>
        toUpperCase (h_text t) \<noteq> ''TRUE'' \<and> toUpperCase (h_text t) \<noteq> ''FALSE'')"
proof -
  have "\<forall>t\<in>set (tokenize s).
      tok_type t \<noteq> T_function
      \<and> (toUpperCase (source_text s t) = ''TRUE'' \<or> toUpperCase (source_text s t) = ''FALSE'') \<longrightarrow>
      tok_type t = T_number \<and> tok_value t = toUpperCase (source_text s t)"
    using tokens_span_bool [of _ 0 s] by (auto simp: tokenize_def source_text_def)
  moreover have "\<forall>t\<in>set (highlightAirtableFormula s).
        h_type t = H_text \<longrightarrow>
        toUpperCase (h_text t) \<noteq> ''TRUE'' \<and> toUpperCase (h_text t) \<noteq> ''FALSE''"
    using highlight_text_no_bool [of _ s] by (auto simp: highlightAirtableFormula_def)
  ultimately show ?thesis
    using display_bool_step [of c w rest] by (simp add: highlightAirtableFormula_def)
qed

theorem boolean_normalised_witness:
  "source_text ''x = true'' (tokenize ''x = true'' ! 2) = ''true''
   \<and> tok_type (tokenize ''x = true'' ! 2) = T_number
   \<and> tok_value (tokenize ''x = true'' ! 2) = ''TRUE''
   \<and> highlightAirtableFormula ''False , 1'' =
        \<lparr>h_text = ''FALSE'', h_type = H_number\<rparr> # highlightAirtableFormula '', 1''
   \<and> h_text (highlightAirtableFormula ''tru'' ! 0) = ''tru''"
proof -
  have tk: "length (tokenize ''x = true'') = 3"
    "source_text ''x = true'' (tokenize ''x = true'' ! 2) = ''true''"
    "tok_type (tokenize ''x = true'' ! 2) \<noteq> T_function"
    by code_simp+
  then have mem: "tokenize ''x = true'' ! 2 \<in> set (tokenize ''x = true'')" by simp
  have up: "toUpperCase ''true'' = ''TRUE''" "toUpperCase ''False'' = ''FALSE''" by code_simp+
  have cls: "is_ident_start (CHR ''F'')" "\<forall>x\<in>set ''alse''. is_ident_char x"
    "\<not> is_ident_char (CHR '' '')" "dropWhile is_space '' , 1'' = '', 1''"
    by (simp_all add: is_ident_start_def is_ident_char_def is_lower_def is_upper_def
        is_digit_def is_space_def)
  have d: "h_text (highlightAirtableFormula ''tru'' ! 0) = ''tru''" by code_simp
  from boolean_normalised [of "''x = true''" "CHR ''F''" "''alse''" "'' , 1''"]
  show ?thesis using mem tk up cls d by auto
qed

section \<open>The display lexer and its input\<close>

lemma dropWhile_none: "\<not> (xs \<noteq> [] \<and> P (hd xs)) \<Longrightarrow> dropWhile P xs = xs"
  by (cases xs) auto

lemma scan_highlight_slice:
  assumes "\<not> plain_ident_before_space c cs"
  shows "\<exists>raw. raw @ snd (scan_highlight c cs) = c # cs \<and> slice_of (fst (scan_highlight c cs)) raw"
proof (induction rule: scan_highlight_cases [of c _ cs])
  case field
  then show ?case
    by (intro exI [of _ "c # fst (scan_field cs)"]) (simp add: scan_field_append slice_of_def)
next
  case string
  then show ?case
    by (intro exI [of _ "c # fst (scan_string c False cs)"])
       (simp add: scan_string_append slice_of_def)
next
  case number
  then show ?case
    by (intro exI [of _ "c # takeWhile is_number_char cs"]) (simp add: slice_of_def)
next
  case arith
  then show ?case by (intro exI [of _ "[c]"]) (simp add: slice_of_def)
next
  case compare2
  then show ?case by (cases cs) (auto intro!: exI [of _ "[c, hd cs]"] simp: slice_of_def)
next
  case compare1
  then show ?case by (intro exI [of _ "[c]"]) (simp add: slice_of_def)
next
  case punct
  then show ?case by (intro exI [of _ "[c]"]) (simp add: slice_of_def)
next
  case func
  then show ?case
    by (intro exI [of _ "c # takeWhile is_ident_char cs"]) (simp add: slice_of_def)
next
  case bool
  with assms have "\<not> (dropWhile is_ident_char cs \<noteq> [] \<and> is_space (hd (dropWhile is_ident_char cs)))"
    by (auto simp: plain_ident_before_space_def Let_def)
  then have "dropWhile is_space (dropWhile is_ident_char cs) = dropWhile is_ident_char cs"
    by (rule dropWhile_none)
  then show ?case
    by (intro exI [of _ "c # takeWhile is_ident_char cs"]) (simp add: slice_of_def)
next
  case ident
  with assms have "\<not> (dropWhile is_ident_char cs \<noteq> [] \<and> is_space (hd (dropWhile is_ident_char cs)))"
    by (auto simp: plain_ident_before_space_def Let_def)
  then have "dropWhile is_space (dropWhile is_ident_char cs) = dropWhile is_ident_char cs"
    by (rule dropWhile_none)
  then show ?case
    by (intro exI [of _ "c # takeWhile is_ident_char cs"]) (simp add: slice_of_def)
next
  case space
  then show ?case
    by (intro exI [of _ "c # takeWhile is_space cs"]) (simp add: slice_of_def)
next
  case other
  then show ?case by (intro exI [of _ "[c]"]) (simp add: slice_of_def)
qed

lemma highlight_from_slices:
  "spaces_kept s \<Longrightarrow> \<exists>raws. concat raws = s \<and> list_all2 slice_of (highlight_from s) raws"
proof (induction s rule: highlight_from.induct)
  case 1
  then show ?case by simp
next
  case (2 c cs)
  from "2.prems" have np: "\<not> plain_ident_before_space c cs"
    and sk: "spaces_kept (snd (scan_highlight c cs))" by simp_all
  from "2.IH" [OF sk] obtain raws where
    r: "concat raws = snd (scan_highlight c cs)"
       "list_all2 slice_of (highlight_from (snd (scan_highlight c cs))) raws" by blast
  from scan_highlight_slice [OF np] obtain raw where
    w: "raw @ snd (scan_highlight c cs) = c # cs" "slice_of (fst (scan_highlight c cs)) raw"
    by blast
  show ?case using r w by (intro exI [of _ "raw # raws"]) simp
qed

lemma to_upper_lower: "is_lower c \<Longrightarrow> \<not> is_lower (to_upper c)"
  unfolding is_lower_def by (simp, elim disjE) (simp_all add: to_upper_def)

lemma to_upper_other: "\<not> is_lower c \<Longrightarrow> to_upper c = c"
  unfolding is_lower_def to_upper_def by (simp add: map_of_zip_is_None [THEN iffD2])

lemma to_upper_idem: "to_upper (to_upper c) = to_upper c"
  using to_upper_lower [of c] to_upper_other [of c] to_upper_other [of "to_upper c"]
  by (cases "is_lower c") auto

lemma toUpperCase_idem: "toUpperCase (toUpperCase s) = toUpperCase s"
  by (simp add: toUpperCase_def to_upper_idem)

lemma slices_upper:
  "list_all2 slice_of ts raws \<Longrightarrow> toUpperCase (concat (map h_text ts)) = toUpperCase (concat raws)"
proof (induction rule: list_all2_induct)
  case Nil
  then show ?case by simp
next
  case (Cons t ts raw raws)
  from Cons.hyps(1) have "toUpperCase (h_text t) = toUpperCase raw"
    by (auto simp: slice_of_def toUpperCase_idem)
  with Cons.IH show ?case by (simp add: toUpperCase_def)
qed

text \<open>
  Claim C1, as the spec states it: the texts of the display tokens, joined in order, are
  the input. The input \<^verbatim>\<open>sum(x)\<close> refutes it: the function name comes back in upper case.
\<close>

theorem display_round_trip_counterexample:
  "concat (map h_text (highlightAirtableFormula ''sum(x)'')) \<noteq> ''sum(x)''"
  by code_simp

text \<open>
  Claim C1, amended. For every input in which no identifier that is not a function is
  directly followed by whitespace, the display tokens are consecutive pieces of the input
  that cover it in order, each token's text being its piece as it stands or, for a
  function name and for \<^verbatim>\<open>TRUE\<close>/\<^verbatim>\<open>FALSE\<close>, its piece in upper case; so the joined texts
  equal the input up to the case of letters.
\<close>

theorem display_round_trip:
  assumes "spaces_kept s"
  shows "(\<exists>raws. concat raws = s \<and> list_all2 slice_of (highlightAirtableFormula s) raws)
         \<and> toUpperCase (concat (map h_text (highlightAirtableFormula s))) = toUpperCase s"
proof -
  from highlight_from_slices [OF assms] obtain raws where
    r: "concat raws = s" "list_all2 slice_of (highlight_from s) raws" by blast
  from slices_upper [OF r(2)] r show ?thesis
    by (auto simp: highlightAirtableFormula_def)
qed

theorem display_round_trip_witness:
  "spaces_kept ''sum (x) = 1''
   \<and> (\<exists>raws. concat raws = ''sum (x) = 1''
        \<and> list_all2 slice_of (highlightAirtableFormula ''sum (x) = 1'') raws)
   \<and> toUpperCase (concat (map h_text (highlightAirtableFormula ''sum (x) = 1''))) = ''SUM (X) = 1''"
proof -
  have sk: "spaces_kept ''sum (x) = 1''" by code_simp
  have up: "toUpperCase ''sum (x) = 1'' = ''SUM (X) = 1''" by code_simp
  from display_round_trip [OF sk] show ?thesis using sk up by simp
qed

text \<open>
  On the inputs that the amended claim leaves out, the whitespace after a plain identifier
  is in no token.
\<close>

lemma display_drops_space_example:
  "concat (map h_text (highlightAirtableFormula ''a = b'')) = ''a= b''"
  by code_simp

section \<open>Blank input and the token list\<close>

lemma tokenize_from_Nil_iff: "tokenize_from i s = [] \<longleftrightarrow> (\<forall>c\<in>set s. is_space c)"
  by (induction s arbitrary: i) auto

lemma dropWhile_all_iff: "(\<forall>x\<in>set (dropWhile P s). P x) \<longleftrightarrow> (\<forall>c\<in>set s. P c)"
  by (induction s) auto

lemma trim_Nil_iff: "trim s = [] \<longleftrightarrow> (\<forall>c\<in>set s. is_space c)"
  by (simp add: trim_def dropWhile_all_iff)

text \<open>
  Claim C9. The formatter returns the empty string for the empty input, for three spaces
  and for every input that is whitespace only; the display lexer returns no token for the
  empty input.
\<close>

theorem empty_input:
  assumes "\<forall>c\<in>set s. is_space c"
  shows "formatAirtableFormula s = Inr [] \<and> formatAirtableFormula [] = Inr []
         \<and> formatAirtableFormula ''   '' = Inr [] \<and> highlightAirtableFormula [] = []"
proof -
  have "\<And>u. \<forall>c\<in>set u. is_space c \<Longrightarrow> formatAirtableFormula u = Inr []"
    by (simp add: formatAirtableFormula_def trim_Nil_iff)
  then show ?thesis using assms
    by (simp add: highlightAirtableFormula_def is_space_def)
qed

theorem empty_input_witness:
  "is_space (CHR 0x09) \<and> is_space (CHR 0x0A) \<and> is_space (CHR 0x20)
   \<and> formatAirtableFormula [CHR 0x09, CHR 0x0A, CHR 0x20] = Inr []
   \<and> highlightAirtableFormula [] = []"
  using empty_input [of "[CHR 0x09, CHR 0x0A, CHR 0x20]"] by (simp add: is_space_def)

text \<open>
  Claim C10. An input with a character that is not whitespace has at least one token, so
  the guard that returns the raw formula for an empty token list is never taken: the
  formatter returns the empty string for a blank input and the cleaned text of the
  emission loop for every other input.
\<close>

theorem tokens_nonempty:
  "((\<exists>c\<in>set s. \<not> is_space c) \<longrightarrow> tokenize s \<noteq> [])
   \<and> formatAirtableFormula s =
       (if trim s = [] then Inr []
        else (case emit_loop (tokenize s) 0 init_state of
                Inl e \<Rightarrow> Inl e
              | Inr st \<Rightarrow> Inr (cleanup (result st))))"
proof -
  have a: "(\<exists>c\<in>set s. \<not> is_space c) \<longrightarrow> tokenize s \<noteq> []"
    by (auto simp: tokenize_def tokenize_from_Nil_iff)
  have "trim s \<noteq> [] \<longrightarrow> tokenize s \<noteq> []"
    by (auto simp: trim_Nil_iff tokenize_def tokenize_from_Nil_iff)
  then show ?thesis using a by (simp add: formatAirtableFormula_def Let_def)
qed

theorem tokens_nonempty_witness:
  "\<not> is_space (CHR ''a'') \<and> tokenize '' a'' \<noteq> [] \<and> formatAirtableFormula '' a'' = Inr ''a''"
proof -
  have ns: "\<exists>c\<in>set '' a''. \<not> is_space c" by (simp add: is_space_def)
  have "formatAirtableFormula '' a'' = Inr ''a''" by code_simp
  with tokens_nonempty [of "'' a''"] ns show ?thesis by (simp add: is_space_def)
qed

section \<open>The formatter never raises\<close>

text \<open>The indent level never goes below zero, so \<open>addIndent\<close> never fails.\<close>

lemma emit_token_ok:
  "0 \<le> indentLevel st \<Longrightarrow> \<exists>st'. emit_token tokens i st = Inr st' \<and> 0 \<le> indentLevel st'"
  unfolding emit_token_def addIndent_def Let_def
  by (cases "tok_type (tokens ! i)") auto

lemma emit_loop_ok:
  "0 \<le> indentLevel st \<Longrightarrow> \<exists>st'. emit_loop tokens i st = Inr st' \<and> 0 \<le> indentLevel st'"
proof (induction tokens i st rule: emit_loop.induct)
  case (1 tokens i st)
  show ?case
  proof (cases "i < length tokens")
    case True
    from emit_token_ok [OF "1.prems"] obtain st1 where
      s1: "emit_token tokens i st = Inr st1" and l1: "0 \<le> indentLevel st1" by blast
    from "1.IH" [OF True s1 l1] show ?thesis using True s1 by (subst emit_loop.simps) simp
  next
    case False
    then show ?thesis using "1.prems" by (subst emit_loop.simps) simp
  qed
qed

text \<open>
  Claim C3. For every input the formatter returns a string, never an error; the input
  \<^verbatim>\<open>CONCATENATE("abc)\<close> is returned as it is, and its unterminated string token is the
  text from the opening quote to the end of the input.
\<close>

theorem format_total:
  \<open>(\<exists>r. formatAirtableFormula s = Inr r)
   \<and> formatAirtableFormula ''CONCATENATE("abc)'' = Inr ''CONCATENATE("abc)''
   \<and> map (\<lambda>t. (tok_type t, tok_value t)) (tokenize ''CONCATENATE("abc)'')
       = [(T_function, ''CONCATENATE''), (T_paren_open, ''(''), (T_string, ''"abc)'')]\<close>
proof -
  obtain st where "emit_loop (tokenize s) 0 init_state = Inr st"
    using emit_loop_ok [of init_state "tokenize s" 0] by (auto simp: init_state_def)
  then have "\<exists>r. formatAirtableFormula s = Inr r"
    by (simp add: formatAirtableFormula_def Let_def)
  moreover have \<open>formatAirtableFormula ''CONCATENATE("abc)'' = Inr ''CONCATENATE("abc)''\<close>
    by code_simp
  moreover have \<open>map (\<lambda>t. (tok_type t, tok_value t)) (tokenize ''CONCATENATE("abc)'')
       = [(T_function, ''CONCATENATE''), (T_paren_open, ''(''), (T_string, ''"abc)'')]\<close>
    by code_simp
  ultimately show ?thesis by blast
qed

section \<open>Formatting twice\<close>

text \<open>The emission loop reads only the kinds and the texts of the tokens.\<close>

lemma count_loop_cong:
  "map tok_type ts = map tok_type ts' \<Longrightarrow> count_loop ts d n = count_loop ts' d n"
proof (induction ts arbitrary: ts' d n)
  case Nil
  then show ?case by simp
next
  case (Cons t ts)
  then obtain t' us where u: "ts' = t' # us" "tok_type t = tok_type t'"
    "map tok_type ts = map tok_type us" by (cases ts') auto
  from Cons.IH [OF u(3)] u(1,2) show ?case by (simp add: Let_def)
qed

lemma kinds_and_texts_nth:
  assumes "kinds_and_texts ts = kinds_and_texts ts'" "j < length ts"
  shows "tok_type (ts ! j) = tok_type (ts' ! j) \<and> tok_value (ts ! j) = tok_value (ts' ! j)"
proof -
  from assms(1) have l: "length ts = length ts'"
    by (auto simp: kinds_and_texts_def dest: arg_cong [where f = length])
  from assms have "kinds_and_texts ts ! j = kinds_and_texts ts' ! j" by simp
  with assms(2) l show ?thesis by (simp add: kinds_and_texts_def)
qed

lemma emit_token_cong:
  assumes "kinds_and_texts ts = kinds_and_texts ts'" "i < length ts"
  shows "emit_token ts i st = emit_token ts' i st"
proof -
  from assms(1) have l: "length ts = length ts'"
    by (auto simp: kinds_and_texts_def dest: arg_cong [where f = length])
  have "\<And>us. map tok_type us = map fst (kinds_and_texts us)"
    by (simp add: kinds_and_texts_def comp_def)
  with assms(1) have "map tok_type ts = map tok_type ts'" by simp
  then have "map tok_type (drop (i + 1) ts) = map tok_type (drop (i + 1) ts')"
    by (simp add: drop_map [symmetric])
  from count_loop_cong [OF this]
  have c: "shouldBreakAfterParenOpen ts i = shouldBreakAfterParenOpen ts' i"
    by (simp add: shouldBreakAfterParenOpen_def countParameters_def)
  note a = kinds_and_texts_nth [OF assms(1)]
  have cur: "tok_type (ts ! i) = tok_type (ts' ! i)" "tok_value (ts ! i) = tok_value (ts' ! i)"
    using a [OF assms(2)] by simp_all
  have nxt: "map_option tok_type (if i + 1 < length ts then Some (ts ! (i + 1)) else None) =
             map_option tok_type (if i + 1 < length ts' then Some (ts' ! (i + 1)) else None)"
    "((if i + 1 < length ts then Some (ts ! (i + 1)) else None) \<noteq> None) =
     ((if i + 1 < length ts' then Some (ts' ! (i + 1)) else None) \<noteq> None)"
    using a [of "i + 1"] l by simp_all
  have prv: "map_option tok_type (if i > 0 then Some (ts ! (i - 1)) else None) =
             map_option tok_type (if i > 0 then Some (ts' ! (i - 1)) else None)"
    "((if i > 0 then Some (ts ! (i - 1)) else None) \<noteq> None) =
     ((if i > 0 then Some (ts' ! (i - 1)) else None) \<noteq> None)"
    using a [of "i - 1"] assms(2) by simp_all
  show ?thesis
    by (simp only: emit_token_def Let_def c cur nxt prv)
qed

lemma emit_loop_cong:
  "kinds_and_texts ts = kinds_and_texts ts' \<Longrightarrow> emit_loop ts i st = emit_loop ts' i st"
proof (induction ts i st rule: emit_loop.induct)
  case (1 tokens i st)
  from "1.prems" have l: "length tokens = length ts'"
    by (auto simp: kinds_and_texts_def dest: arg_cong [where f = length])
  show ?case
  proof (cases "i < length tokens")
    case True
    note e = emit_token_cong [OF "1.prems" True, of st]
    show ?thesis
    proof (cases "emit_token tokens i st")
      case (Inl err)
      from e Inl have e': "emit_token ts' i st = Inl err" by simp
      show ?thesis using True l e' Inl
        by (simp add: emit_loop.simps [of tokens i st] emit_loop.simps [of ts' i st])
    next
      case (Inr st')
      from e Inr have e': "emit_token ts' i st = Inr st'" by simp
      from "1.IH" [OF True Inr "1.prems"] show ?thesis using True l e' Inr
        by (simp add: emit_loop.simps [of tokens i st] emit_loop.simps [of ts' i st])
    qed
  next
    case False
    then show ?thesis using l
      by (simp add: emit_loop.simps [of tokens i st] emit_loop.simps [of ts' i st])
  qed
qed

text \<open>
  Claim C2, as the spec states it: formatting a formula with balanced parentheses and
  terminated literals twice gives the same text as formatting it once. The input
  \<^verbatim>\<open>sum (x)\<close> refutes it. Its parentheses are balanced and it has no literal; the layout
  lexer reads \<^verbatim>\<open>sum\<close> as a plain identifier, because whitespace stands before the
  parenthesis, and the formatter drops that whitespace; in the result \<^verbatim>\<open>sum(x)\<close> the same
  name is a function and the second pass upper-cases it.
\<close>

theorem format_idempotent_counterexample:
  "balanced_from (tokenize ''sum (x)'') 0
   \<and> filter (\<lambda>t. tok_type t = T_string \<or> tok_type t = T_field) (tokenize ''sum (x)'') = []
   \<and> formatAirtableFormula ''sum (x)'' = Inr ''sum(x)''
   \<and> format_twice ''sum (x)'' = Inr ''SUM(x)''
   \<and> format_twice ''sum (x)'' \<noteq> formatAirtableFormula ''sum (x)''"
  by code_simp

subsection \<open>The cleanup pass leaves a tidy text alone\<close>

text \<open>
  The lines of a tidy text end in no space and hold no run of two whitespace characters
  after a character that is neither space nor tab; no line feed of it is followed by
  whitespace up to another line feed; and there is nothing to trim.
\<close>

declare ws_match.simps [simp del]

lemma ws_chars: "is_space (CHR 0x20)" "is_space (CHR 0x0A)" "is_space (CHR 0x09)"
  by (simp_all add: is_space_def)

lemma split_lines_ne: "split_lines x \<noteq> []"
  by (induction x) (auto split: list.splits)

lemma join_split_lines: "join_lines (split_lines x) = x"
proof (induction x)
  case Nil
  then show ?case by simp
next
  case (Cons c cs)
  obtain l ls where s: "split_lines cs = l # ls" using split_lines_ne [of cs] by (cases "split_lines cs") auto
  show ?case
  proof (cases "c = CHR 0x0A")
    case True
    then show ?thesis using Cons s by simp
  next
    case False
    then show ?thesis using Cons s by (cases ls) auto
  qed
qed

lemma split_lines_first:
  "split_lines cs = l # ls \<Longrightarrow>
     (l = [] \<longleftrightarrow> cs = [] \<or> hd cs = CHR 0x0A) \<and> (l \<noteq> [] \<longrightarrow> hd l = hd cs)"
  by (cases cs) (auto split: if_splits list.splits)

lemma pairs_ok_tl: "pairs_ok (c # cs) \<Longrightarrow> pairs_ok cs"
  by (cases cs) auto

lemma pairs_ok_Cons: "pairs_ok (c # cs) \<longleftrightarrow> (cs = [] \<or> ok_pair c (hd cs)) \<and> pairs_ok cs"
  by (cases cs) auto

lemma ok_pair_nl: "ok_pair c (CHR 0x0A) \<Longrightarrow> \<not> is_space c"
  by (auto simp: ok_pair_def is_space_def split: if_splits)

lemma lines_tidy:
  "pairs_ok x \<Longrightarrow> x = [] \<or> last x \<noteq> CHR 0x20 \<Longrightarrow> \<forall>l\<in>set (split_lines x). line_tidy l"
proof (induction x)
  case Nil
  then show ?case by (simp add: line_tidy_def)
next
  case (Cons c cs)
  obtain l ls where s: "split_lines cs = l # ls" using split_lines_ne [of cs] by (cases "split_lines cs") auto
  from Cons.prems have p: "pairs_ok cs" "cs = [] \<or> last cs \<noteq> CHR 0x20"
    by (auto simp: pairs_ok_Cons)
  from Cons.IH [OF p] s have ih: "line_tidy l" "\<forall>m\<in>set ls. line_tidy m" by auto
  show ?case
  proof (cases "c = CHR 0x0A")
    case True
    then show ?thesis using ih s by (simp add: line_tidy_def)
  next
    case False
    note f = split_lines_first [OF s]
    have "line_tidy (c # l)"
    proof (cases "l = []")
      case True
      with f have "cs = [] \<or> hd cs = CHR 0x0A" by simp
      then have "c \<noteq> CHR 0x20"
      proof
        assume "cs = []" with Cons.prems(2) show ?thesis by simp
      next
        assume h: "hd cs = CHR 0x0A"
        show ?thesis
        proof (cases cs)
          case Nil
          with Cons.prems(2) show ?thesis by simp
        next
          case (Cons b bs)
          with h Cons.prems(1) have "ok_pair c (CHR 0x0A)" by simp
          from ok_pair_nl [OF this] show ?thesis using ws_chars by auto
        qed
      qed
      with True False show ?thesis by (simp add: line_tidy_def)
    next
      case ne: False
      with f have "cs \<noteq> []" "hd l = hd cs" by auto
      with Cons.prems(1) have "ok_pair c (hd l)" by (auto simp: pairs_ok_Cons)
      with ne ih(1) False show ?thesis by (auto simp: line_tidy_def pairs_ok_Cons)
    qed
    with ih s False show ?thesis by simp
  qed
qed

lemma strip_id: "l = [] \<or> last l \<noteq> CHR 0x20 \<Longrightarrow> strip_trailing_spaces l = l"
  by (cases l rule: rev_cases) (auto simp: strip_trailing_spaces_def)

lemma ws_match_small: "n < 2 \<Longrightarrow> ws_match cs n = None"
  by (simp add: ws_match.simps)

lemma short_run:
  assumes "pairs_ok (c # cs)" "c \<noteq> CHR 0x20" "c \<noteq> CHR 0x09" "CHR 0x0A \<notin> set (c # cs)"
  shows "length (takeWhile is_space cs) < 2"
proof (cases cs)
  case Nil
  then show ?thesis by simp
next
  case (Cons b bs)
  show ?thesis
  proof (cases "is_space b")
    case False
    with Cons show ?thesis by simp
  next
    case True
    from assms(1) Cons have o: "ok_pair c b" "pairs_ok (b # bs)" by simp_all
    from o(1) True assms(2,3,4) Cons have b: "b = CHR 0x20"
      by (auto simp: ok_pair_def split: if_splits)
    have "bs = [] \<or> \<not> is_space (hd bs)"
      using o(2) b by (cases bs) (auto simp: ok_pair_def ws_chars)
    then have "takeWhile is_space bs = []" by (cases bs) auto
    with Cons True show ?thesis by simp
  qed
qed

lemma collapse_spaces_id: "pairs_ok l \<Longrightarrow> CHR 0x0A \<notin> set l \<Longrightarrow> collapse_spaces l = l"
proof (induction l rule: collapse_spaces.induct)
  case 1
  then show ?case by simp
next
  case (2 c cs)
  from "2.prems" have p: "pairs_ok cs" "CHR 0x0A \<notin> set cs" by (auto simp: pairs_ok_Cons)
  show ?case
  proof (cases "c \<noteq> CHR 0x20 \<and> c \<noteq> CHR 0x09")
    case True
    then have "length (takeWhile is_space cs) < 2" using short_run "2.prems" by blast
    then have n: "ws_match cs (length (takeWhile is_space cs)) = None" by (rule ws_match_small)
    from "2.IH" True n p show ?thesis by simp
  next
    case False
    from "2.IH" False p show ?thesis by auto
  qed
qed

lemma clean_line_id: "line_tidy l \<Longrightarrow> clean_line l = l"
  by (simp add: line_tidy_def clean_line_def strip_id collapse_spaces_id)

lemma no_nl_in_indent:
  "pairs_ok (a # cs) \<Longrightarrow> a = CHR 0x0A \<or> a = CHR 0x09 \<Longrightarrow>
     CHR 0x0A \<notin> set (takeWhile is_space cs)"
proof (induction cs arbitrary: a)
  case Nil
  then show ?case by simp
next
  case (Cons b bs)
  show ?case
  proof (cases "is_space b")
    case False
    then show ?thesis by simp
  next
    case True
    from Cons.prems have o: "ok_pair a b" "pairs_ok (b # bs)" by simp_all
    with True Cons.prems(2) have b: "b = CHR 0x09"
      by (auto simp: ok_pair_def ws_chars split: if_splits)
    from Cons.IH [OF o(2)] b True show ?thesis by simp
  qed
qed

lemma blank_match_0: "CHR 0x0A \<notin> set (takeWhile is_space cs) \<Longrightarrow> blank_match cs = 0"
proof -
  assume a: "CHR 0x0A \<notin> set (takeWhile is_space cs)"
  then have "takeWhile (\<lambda>x. x \<noteq> CHR 0x0A) (rev (takeWhile is_space cs)) = rev (takeWhile is_space cs)"
    by (auto simp: takeWhile_eq_all_conv)
  then show ?thesis by (simp only: blank_match_def Let_def length_rev diff_self_eq_0)
qed

lemma collapse_blank_id: "pairs_ok x \<Longrightarrow> collapse_blank_lines x = x"
proof (induction x)
  case Nil
  then show ?case by simp
next
  case (Cons c cs)
  then have ih: "collapse_blank_lines cs = cs" by (simp add: pairs_ok_Cons)
  show ?case
  proof (cases "c = CHR 0x0A")
    case True
    with no_nl_in_indent [OF Cons.prems] have "blank_match cs = 0" by (simp add: blank_match_0)
    with ih show ?thesis by simp
  next
    case False
    with ih show ?thesis by simp
  qed
qed

lemma trim_id:
  assumes "x = [] \<or> (\<not> is_space (hd x) \<and> \<not> is_space (last x))"
  shows "trim x = x"
proof (cases "x = []")
  case True
  then show ?thesis by (simp add: trim_def)
next
  case False
  with assms have h: "\<not> is_space (hd x)" "\<not> is_space (last x)" by auto
  from h(1) False have d: "dropWhile is_space x = x" by (cases x) auto
  from h(2) False have "dropWhile is_space (rev x) = rev x" by (cases x rule: rev_cases) auto
  with d show ?thesis by (simp add: trim_def)
qed

lemma cleanup_id: "tidy x \<Longrightarrow> cleanup x = x"
proof -
  assume t: "tidy x"
  then have p: "pairs_ok x" "x = [] \<or> last x \<noteq> CHR 0x20"
    using ws_chars by (auto simp: tidy_def)
  from lines_tidy [OF p] have "map clean_line (split_lines x) = split_lines x"
    by (intro map_idI) (simp add: clean_line_id)
  then show ?thesis using t p(1)
    by (simp add: cleanup_def join_split_lines collapse_blank_id trim_id tidy_def)
qed

subsection \<open>Reading a token again with other text after it\<close>

text \<open>
  One turn of the layout lexer looks at most one character beyond the token it reads. A
  token that fits before a text fits before any other text that starts with the same
  character, and, unless it is a function name, before any text that starts with
  whitespace.
\<close>

lemma scan_token_offset:
  "tok_type (fst (scan_token i c cs)) = tok_type (fst (scan_token j c cs))
   \<and> tok_value (fst (scan_token i c cs)) = tok_value (fst (scan_token j c cs))
   \<and> snd (scan_token i c cs) = snd (scan_token j c cs)"
  by (simp add: scan_token_def Let_def)

lemma kinds_offset:
  "kinds_and_texts (tokenize_from i s) = kinds_and_texts (tokenize_from j s)"
proof (induction i s arbitrary: j rule: tokenize_from.induct)
  case (1 i)
  then show ?case by simp
next
  case (2 i c cs)
  show ?case
  proof (cases "is_space c")
    case True
    from "2.IH"(1) [OF True, of "j + 1"] True show ?thesis by simp
  next
    case False
    from "2.IH"(2) [OF False, of "tok_end (fst (scan_token j c cs))"]
      scan_token_offset [of i c cs j] False
    show ?thesis by (simp add: kinds_and_texts_def)
  qed
qed

lemma tokenize_skip:
  "\<forall>c\<in>set w. is_space c \<Longrightarrow>
     kinds_and_texts (tokenize_from i (w @ y)) = kinds_and_texts (tokenize_from j y)"
proof (induction w arbitrary: i)
  case Nil
  then show ?case using kinds_offset [of i y j] by simp
next
  case (Cons a w)
  then show ?case by simp
qed

lemma scan_token_rest:
  "snd (scan_token i c cs) = drop (length (tok_value (fst (scan_token i c cs))) - 1) cs"
proof (induction rule: scan_token_cases [of c _ cs i])
  case field
  then show ?case using scan_field_drop [of cs] by simp
next
  case string
  then show ?case using scan_string_drop [of c False cs] by simp
next
  case number
  then show ?case by (simp add: dropWhile_eq_drop)
next
  case compare2
  then show ?case by (simp add: drop_Suc)
next
  case func
  then show ?case by (simp add: dropWhile_eq_drop toUpperCase_def)
next
  case bool
  then show ?case by (simp add: dropWhile_eq_drop toUpperCase_def)
next
  case ident
  then show ?case by (simp add: dropWhile_eq_drop)
qed simp_all

lemma scan_token_not_ws: "tok_type (fst (scan_token i c cs)) \<noteq> T_whitespace"
  by (induction rule: scan_token_cases [of c _ cs i]) simp_all

lemma fits_step:
  assumes "fits ty v r"
  shows "kinds_and_texts (tokenize_from i (v @ r)) = (ty, v) # kinds_and_texts (tokenize_from j r)"
proof -
  from assms obtain c v' where v: "v = c # v'" "\<not> is_space c"
    by (cases v) (auto simp: fits_def)
  from assms v have s: "tok_type (fst (scan_token 0 c (v' @ r))) = ty"
    "tok_value (fst (scan_token 0 c (v' @ r))) = v" "snd (scan_token 0 c (v' @ r)) = r"
    by (simp_all add: fits_def)
  with scan_token_offset [of i c "v' @ r" 0]
  have s': "tok_type (fst (scan_token i c (v' @ r))) = ty"
    "tok_value (fst (scan_token i c (v' @ r))) = v" "snd (scan_token i c (v' @ r)) = r"
    by simp_all
  show ?thesis using v s' kinds_offset [of "tok_end (fst (scan_token i c (v' @ r)))" r j]
    by (simp add: kinds_and_texts_def)
qed

lemma scan_field_shorter: "cs \<noteq> [] \<Longrightarrow> length (snd (scan_field cs)) < length cs"
  using scan_field_length [of "tl cs"] by (cases cs) (auto simp: le_imp_less_Suc)

lemma scan_string_shorter: "cs \<noteq> [] \<Longrightarrow> length (snd (scan_string q e cs)) < length cs"
  using scan_string_length [of q _ "tl cs"] by (cases cs) (auto simp: le_imp_less_Suc)

lemma scan_field_relex:
  "snd (scan_field (x @ r)) = r \<Longrightarrow> r \<noteq> [] \<Longrightarrow> scan_field (x @ r') = (x, r')"
proof (induction x)
  case Nil
  from scan_field_shorter [of r] Nil show ?case by simp
next
  case (Cons a x)
  then show ?case by (auto split: if_splits)
qed

lemma scan_string_relex:
  "snd (scan_string q e (x @ r)) = r \<Longrightarrow> r \<noteq> [] \<Longrightarrow> scan_string q e (x @ r') = (x, r')"
proof (induction x arbitrary: e)
  case Nil
  from scan_string_shorter [of r q e] Nil show ?case by simp
next
  case (Cons a x)
  then show ?case by (auto split: if_splits)
qed

lemma dropWhile_relex:
  assumes "dropWhile P (x @ r) = r" "r \<noteq> []" "r' \<noteq> []" "P (hd r') \<Longrightarrow> P (hd r)"
  shows "takeWhile P (x @ r') = x \<and> dropWhile P (x @ r') = r' \<and> takeWhile P (x @ r) = x"
proof -
  have "takeWhile P (x @ r) @ dropWhile P (x @ r) = x @ r" by simp
  with assms(1) have t: "takeWhile P (x @ r) = x" by (metis append_same_eq)
  then have a: "\<forall>a\<in>set x. P a" by (metis set_takeWhileD)
  from assms(1,2) have "\<not> P (hd r)" by (metis hd_dropWhile)
  with assms(4) have "\<not> P (hd r')" by blast
  with assms(3) a t show ?thesis by (cases r') auto
qed

lemma space_not_number: "is_space x \<Longrightarrow> \<not> is_number_char x"
  by (auto simp: is_space_def is_number_char_def is_digit_def)

lemma scan_token_ident:
  assumes "is_ident_start c"
  shows "snd (scan_token i c cs) = dropWhile is_ident_char cs"
    and "tok_type (fst (scan_token i c cs)) = T_function \<longleftrightarrow>
           dropWhile is_ident_char cs \<noteq> [] \<and> hd (dropWhile is_ident_char cs) = CHR ''(''"
  using ident_start_class [OF assms] assms by (simp_all add: scan_token_def Let_def)

lemma ident_change:
  assumes "is_ident_start c" "dropWhile is_ident_char (v' @ r) = r" "r \<noteq> []" "r' \<noteq> []"
    and "hd r' = hd r \<or> (is_space (hd r') \<and> hd r \<noteq> CHR ''('')"
  shows "tok_type (fst (scan_token 0 c (v' @ r'))) = tok_type (fst (scan_token 0 c (v' @ r)))
     \<and> tok_value (fst (scan_token 0 c (v' @ r'))) = tok_value (fst (scan_token 0 c (v' @ r)))
     \<and> snd (scan_token 0 c (v' @ r')) = r'"
proof -
  have sp: "\<not> is_space (CHR ''('')" by (simp add: is_space_def)
  from assms(5) space_not_ident [of "hd r'"]
  have "is_ident_char (hd r') \<Longrightarrow> is_ident_char (hd r)" by auto
  from dropWhile_relex [OF assms(2,3,4) this]
  have t: "takeWhile is_ident_char (v' @ r') = v'" "dropWhile is_ident_char (v' @ r') = r'"
    "takeWhile is_ident_char (v' @ r) = v'" by auto
  from assms(5) sp have h: "(hd r' = CHR ''('') = (hd r = CHR ''('')" by auto
  show ?thesis using ident_start_class [OF assms(1)] assms(1,3,4) h
    by (simp add: scan_token_def Let_def t assms(2))
qed

lemma fits_change:
  assumes "fits ty v r" "r \<noteq> []" "r' \<noteq> []"
    and "hd r' = hd r \<or> (is_space (hd r') \<and> ty \<noteq> T_function)"
  shows "fits ty v r'"
proof -
  from assms(1) obtain c v' where v: "v = c # v'" "\<not> is_space c"
    by (cases v) (auto simp: fits_def)
  from assms(1) v have f: "tok_type (fst (scan_token 0 c (v' @ r))) = ty"
    "tok_value (fst (scan_token 0 c (v' @ r))) = c # v'" "snd (scan_token 0 c (v' @ r)) = r"
    by (simp_all add: fits_def)
  have sp: "\<not> is_space (CHR ''('')" "\<not> is_space (CHR ''='')" by (simp_all add: is_space_def)
  consider (a) "c = CHR ''{''" | (b) "c = CHR 0x22 \<or> c = CHR 0x27" | (c) "is_digit c"
    | (d) "is_arith_op c" | (e) "is_compare_start c"
    | (p) "c = CHR ''('' \<or> c = CHR '')'' \<or> c = CHR '',''" | (i) "is_ident_start c"
    | (j) "c \<noteq> CHR ''{''" "\<not> (c = CHR 0x22 \<or> c = CHR 0x27)" "\<not> is_digit c" "\<not> is_arith_op c"
          "\<not> is_compare_start c" "c \<noteq> CHR ''(''" "c \<noteq> CHR '')''" "c \<noteq> CHR '',''"
          "\<not> is_ident_start c"
    by blast
  then have "tok_type (fst (scan_token 0 c (v' @ r'))) = ty
        \<and> tok_value (fst (scan_token 0 c (v' @ r'))) = c # v'
        \<and> snd (scan_token 0 c (v' @ r')) = r'"
  proof cases
    case a
    with f have "snd (scan_field (v' @ r)) = r" "ty = T_field" by (auto simp: scan_token_def)
    from scan_field_relex [OF this(1) assms(2), of r'] this(2) a show ?thesis
      by (simp add: scan_token_def)
  next
    case b
    with f have "snd (scan_string c False (v' @ r)) = r" "ty = T_string"
      by (auto simp: scan_token_def)
    from scan_string_relex [OF this(1) assms(2), of r'] this(2) b show ?thesis
      by (auto simp: scan_token_def)
  next
    case c
    note cl = digit_class [OF c]
    from f c cl have d: "dropWhile is_number_char (v' @ r) = r" and t: "ty = T_number"
      by (auto simp: scan_token_def)
    from assms(4) space_not_number [of "hd r'"]
    have "is_number_char (hd r') \<Longrightarrow> is_number_char (hd r)" by auto
    from dropWhile_relex [OF d assms(2,3) this] t c cl show ?thesis
      by (simp add: scan_token_def)
  next
    case d
    note cl = arith_class [OF d]
    from f d cl have "v' = []" "ty = T_operator" by (auto simp: scan_token_def)
    with d cl show ?thesis by (simp add: scan_token_def)
  next
    case e
    note cl = compare_class [OF e]
    show ?thesis
    proof (cases "v' @ r \<noteq> [] \<and> hd (v' @ r) = CHR ''=''")
      case True
      with f e cl have "tl (v' @ r) = r" "v' = [hd (v' @ r)]" "ty = T_operator"
        by (auto simp: scan_token_def)
      with True e cl show ?thesis by (cases v') (auto simp: scan_token_def)
    next
      case False
      with f e cl have "v' = []" "ty = T_operator" by (auto simp: scan_token_def)
      with False e cl assms(2,3,4) sp show ?thesis by (auto simp: scan_token_def)
    qed
  next
    case p
    note cl = punct_class [OF p]
    from f(3) p cl have e: "v' = []" by (auto simp: scan_token_def)
    from f(1) p cl e show ?thesis by (auto simp: scan_token_def)
  next
    case i
    from scan_token_ident [OF i, of 0 "v' @ r"] f
    have d: "dropWhile is_ident_char (v' @ r) = r"
      and t: "ty = T_function \<longleftrightarrow> r \<noteq> [] \<and> hd r = CHR ''(''" by simp_all
    from assms(2,4) t have "hd r' = hd r \<or> (is_space (hd r') \<and> hd r \<noteq> CHR ''('')" by auto
    from ident_change [OF i d assms(2,3) this] f show ?thesis by simp
  next
    case j
    with f have "v' = []" "ty = T_unknown" by (auto simp: scan_token_def)
    with j show ?thesis by (simp add: scan_token_def)
  qed
  with v show ?thesis by (simp add: fits_def)
qed

lemma fits_paren_open: "fits ty v r \<Longrightarrow> hd v = CHR ''('' \<Longrightarrow> ty = T_paren_open"
  using punct_class [of "hd v"] by (auto simp: fits_def scan_token_def)

lemma fits_function: "fits T_function v r \<Longrightarrow> r \<noteq> [] \<and> hd r = CHR ''(''"
  using scan_token_function [of 0 "hd v" "tl v @ r"] by (auto simp: fits_def)

lemma fits_not_ws: "fits ty v r \<Longrightarrow> ty \<noteq> T_whitespace"
  using scan_token_not_ws [of 0 "hd v" "tl v @ r"] by (auto simp: fits_def)

text \<open>
  When the formula without its whitespace gives the same tokens, every token fits before
  the texts of the tokens after it.
\<close>

lemma fits_all:
  assumes "kinds_and_texts (tokenize_from j (token_texts ts)) = kinds_and_texts ts"
    and "\<forall>t\<in>set ts. tok_value t \<noteq> [] \<and> \<not> is_space (hd (tok_value t))"
    and "i < length ts"
  shows "fits (tok_type (ts ! i)) (tok_value (ts ! i)) (token_texts (drop (Suc i) ts))"
  using assms
proof (induction ts arbitrary: i j)
  case Nil
  then show ?case by simp
next
  case (Cons t ts)
  from Cons.prems(2) obtain c v' where v: "tok_value t = c # v'" "\<not> is_space c"
    by (cases "tok_value t") auto
  let ?x = "v' @ token_texts ts"
  let ?tok = "fst (scan_token j c ?x)"
  from Cons.prems(1) v
  have k: "tok_type ?tok = tok_type t" "tok_value ?tok = c # v'"
    "kinds_and_texts (tokenize_from (tok_end ?tok) (snd (scan_token j c ?x))) = kinds_and_texts ts"
    by (simp_all add: token_texts_def kinds_and_texts_def)
  from scan_token_rest [of j c ?x] k(2) have r: "snd (scan_token j c ?x) = token_texts ts" by simp
  show ?case
  proof (cases i)
    case 0
    with k r v scan_token_offset [of j c ?x 0] show ?thesis by (simp add: fits_def)
  next
    case (Suc n)
    from Cons.IH [of "tok_end ?tok" n] k(3) r Cons.prems(2,3) Suc show ?thesis by simp
  qed
qed

subsection \<open>What the emission loop writes\<close>

text \<open>
  For every token the loop writes a gap, the text of the token and another gap. With
  tidy token texts the result stays well spaced, and at the end it is tidy.
\<close>

lemma count_pos:
  assumes "0 < countParameters ts i"
  shows "i + 1 < length ts \<and> tok_type (ts ! (i + 1)) \<noteq> T_paren_close"
proof (cases "i + 1 < length ts")
  case False
  with assms show ?thesis by (simp add: countParameters_def)
next
  case True
  then have d: "drop (i + 1) ts = ts ! (i + 1) # drop (Suc (i + 1)) ts"
    by (simp add: Cons_nth_drop_Suc)
  show ?thesis
  proof (cases "tok_type (ts ! (i + 1)) = T_paren_close")
    case c: True
    with assms d show ?thesis by (simp add: countParameters_def count_loop_done Let_def)
  next
    case False
    with True show ?thesis by simp
  qed
qed

lemma emit_token_text:
  assumes "0 \<le> indentLevel st" "tok_type (ts ! i) \<noteq> T_whitespace"
  shows "\<exists>st'. emit_token ts i st = Inr st' \<and> 0 \<le> indentLevel st'
     \<and> result st' = result st @ lead ts i st @ tok_value (ts ! i) @ trail ts i st"
  using assms unfolding emit_token_def addIndent_def Let_def lead_def trail_def
  by (cases "tok_type (ts ! i)") auto

lemma gap_blank: "gap w \<Longrightarrow> \<forall>c\<in>set w. is_space c"
  by (auto simp: gap_def is_space_def)

lemma lead_gap: "gap (lead ts i st)"
  by (auto simp: gap_def lead_def)

lemma trail_gap: "gap (trail ts i st)"
  by (auto simp: gap_def trail_def)

lemma lead_type:
  "lead ts i st \<noteq> [] \<Longrightarrow> tok_type (ts ! i) = T_operator \<or> tok_type (ts ! i) = T_paren_close"
  by (auto simp: lead_def split: if_splits)

lemma trail_type:
  "trail ts i st \<noteq> [] \<Longrightarrow>
     i + 1 < length ts \<and> tok_type (ts ! (i + 1)) \<noteq> T_paren_close \<and> tok_type (ts ! i) \<noteq> T_function"
  using count_pos [of ts i]
  by (auto simp: trail_def shouldBreakAfterParenOpen_def split: if_splits)

lemma pairs_ok_append:
  "pairs_ok (x @ y) \<longleftrightarrow>
     pairs_ok x \<and> pairs_ok y \<and> (x \<noteq> [] \<and> y \<noteq> [] \<longrightarrow> ok_pair (last x) (hd y))"
proof (induction x)
  case Nil
  then show ?case by simp
next
  case (Cons a x)
  then show ?case by (cases x; cases y) auto
qed

lemma gap_pairs: "gap w \<Longrightarrow> pairs_ok w"
proof -
  have "pairs_ok (replicate k (CHR 0x09))" for k
    by (induction k) (auto simp: pairs_ok_Cons ok_pair_def is_space_def)
  then have "pairs_ok (CHR 0x0A # replicate k (CHR 0x09))" for k
    by (cases k) (auto simp: pairs_ok_Cons ok_pair_def is_space_def)
  then show "gap w \<Longrightarrow> pairs_ok w" by (auto simp: gap_def)
qed

lemma gap_ends:
  "gap w \<Longrightarrow> w \<noteq> [] \<Longrightarrow>
     (hd w = CHR 0x20 \<or> hd w = CHR 0x0A)
     \<and> (last w = CHR 0x20 \<or> last w = CHR 0x0A \<or> last w = CHR 0x09)"
  by (auto simp: gap_def split: if_splits)

lemma ok_pair_text:
  "\<not> is_space b \<Longrightarrow> (is_space a \<Longrightarrow> a = CHR 0x20 \<or> a = CHR 0x0A \<or> a = CHR 0x09) \<Longrightarrow> ok_pair a b"
  by (auto simp: ok_pair_def)

lemma ok_pair_gap: "\<not> is_space a \<Longrightarrow> b = CHR 0x20 \<or> b = CHR 0x0A \<Longrightarrow> ok_pair a b"
  by (auto simp: ok_pair_def)

lemma well_spaced_step:
  assumes w: "well_spaced ts i st" and i: "i < length ts" and t: "tidy (tok_value (ts ! i))"
    and n: "tok_type (ts ! i) \<noteq> T_whitespace" and e: "emit_token ts i st = Inr st'"
  shows "well_spaced ts (i + 1) st'"
proof -
  let ?R = "result st" and ?L = "lead ts i st" and ?v = "tok_value (ts ! i)"
    and ?T = "trail ts i st"
  from w have l0: "0 \<le> indentLevel st" by (simp add: well_spaced_def)
  from emit_token_text [OF l0 n] e
  have r: "result st' = ?R @ ?L @ ?v @ ?T" and l1: "0 \<le> indentLevel st'" by auto
  from t have v: "?v \<noteq> []" "\<not> is_space (hd ?v)" "\<not> is_space (last ?v)" "pairs_ok ?v"
    by (simp_all add: tidy_def)
  from w have R: "pairs_ok ?R" "i = 0 \<Longrightarrow> ?R = [] \<and> \<not> isMultiLine st"
    "0 < i \<Longrightarrow> ?R \<noteq> [] \<and> \<not> is_space (hd ?R)"
    "?R \<noteq> [] \<Longrightarrow> is_space (last ?R) \<Longrightarrow>
       (last ?R = CHR 0x20 \<or> last ?R = CHR 0x0A \<or> last ?R = CHR 0x09)
       \<and> tok_type (ts ! i) \<noteq> T_paren_close"
    by (simp_all add: well_spaced_def)
  have L0: "?L = []" if "?R = []"
  proof -
    from that R(3) have "i = 0" by auto
    with R(2) show ?thesis by (simp add: lead_def)
  qed
  have Lne: "?R \<noteq> [] \<and> \<not> is_space (last ?R)" if "?L \<noteq> []"
  proof -
    from that L0 have ne: "?R \<noteq> []" by auto
    from that have "tok_type (ts ! i) = T_paren_close \<or> \<not> ends_blank ?R"
      by (auto simp: lead_def split: if_splits)
    with R(4) [OF ne] ne show ?thesis by (auto simp: ends_blank_def)
  qed
  have p1: "pairs_ok (?R @ ?L)"
    using R(1) gap_pairs [OF lead_gap, of ts i st] Lne gap_ends [OF lead_gap, of ts i st]
    by (auto simp: pairs_ok_append intro!: ok_pair_gap)
  have e1: "last (?R @ ?L) = CHR 0x20 \<or> last (?R @ ?L) = CHR 0x0A \<or> last (?R @ ?L) = CHR 0x09"
    if "?R @ ?L \<noteq> []" "is_space (last (?R @ ?L))"
    using that R(4) gap_ends [OF lead_gap, of ts i st] by (cases "?L = []") auto
  have p2: "pairs_ok ((?R @ ?L) @ ?v)"
    unfolding pairs_ok_append [of "?R @ ?L" ?v]
    using p1 v(2,4) e1 by (auto intro!: ok_pair_text)
  have p3: "pairs_ok (((?R @ ?L) @ ?v) @ ?T)"
    unfolding pairs_ok_append [of "(?R @ ?L) @ ?v" ?T]
    using p2 gap_pairs [OF trail_gap, of ts i st] v(1,3) gap_ends [OF trail_gap, of ts i st]
    by (auto intro!: ok_pair_gap)
  have h: "\<not> is_space (hd (result st'))"
  proof (cases "?R = []")
    case True
    with L0 r v show ?thesis by simp
  next
    case False
    with R(2,3) r show ?thesis by (cases "i = 0") auto
  qed
  have ne: "result st' \<noteq> []" using r v(1) by simp
  have la: "(last (result st') = CHR 0x20 \<or> last (result st') = CHR 0x0A
               \<or> last (result st') = CHR 0x09)
            \<and> i + 1 < length ts \<and> tok_type (ts ! (i + 1)) \<noteq> T_paren_close"
    if "is_space (last (result st'))"
  proof (cases "?T = []")
    case True
    with r v(1,3) that show ?thesis by simp
  next
    case False
    with r have "last (result st') = last ?T" by simp
    with gap_ends [OF trail_gap False] trail_type [OF False] show ?thesis by simp
  qed
  show ?thesis
    unfolding well_spaced_def using l1 p3 h ne la r by simp
qed

lemma well_spaced_loop:
  "\<forall>t\<in>set ts. tidy (tok_value t) \<and> tok_type t \<noteq> T_whitespace \<Longrightarrow>
     well_spaced ts i st \<Longrightarrow> i \<le> length ts \<Longrightarrow> emit_loop ts i st = Inr st' \<Longrightarrow>
     well_spaced ts (length ts) st'"
proof (induction ts i st rule: emit_loop.induct)
  case (1 tokens i st)
  show ?case
  proof (cases "i < length tokens")
    case True
    from "1.prems"(2) have "0 \<le> indentLevel st" by (simp add: well_spaced_def)
    from emit_token_ok [OF this, of tokens i] obtain st1 where
      s1: "emit_token tokens i st = Inr st1" by blast
    from True "1.prems"(1) have a: "tidy (tok_value (tokens ! i))"
      "tok_type (tokens ! i) \<noteq> T_whitespace" by simp_all
    note w = well_spaced_step [OF "1.prems"(2) True a s1]
    from "1.prems"(4) True s1 have "emit_loop tokens (i + 1) st1 = Inr st'"
      by (simp add: emit_loop.simps [of tokens i st])
    from "1.IH" [OF True s1 "1.prems"(1) w _ this] True show ?thesis by simp
  next
    case False
    from "1.prems"(4) False have "st' = st" by (simp add: emit_loop.simps [of tokens i st])
    with "1.prems"(2,3) False show ?thesis by simp
  qed
qed

lemma emitted_tidy:
  assumes "\<forall>t\<in>set ts. tidy (tok_value t) \<and> tok_type t \<noteq> T_whitespace" "ts \<noteq> []"
    and "emit_loop ts 0 init_state = Inr st'"
  shows "tidy (result st')"
proof -
  have "well_spaced ts 0 init_state" by (simp add: well_spaced_def init_state_def)
  from well_spaced_loop [OF assms(1) this _ assms(3)] assms(2)
  show ?thesis by (auto simp: well_spaced_def tidy_def)
qed

subsection \<open>Reading the formatted text again\<close>

text \<open>
  The layout lexer reads the emitted text back as the tokens that were emitted, when each
  of them fits before the texts of the tokens after it.
\<close>

lemma token_texts_drop:
  "k < length ts \<Longrightarrow> token_texts (drop k ts) = tok_value (ts ! k) @ token_texts (drop (Suc k) ts)"
  by (simp add: token_texts_def Cons_nth_drop_Suc [symmetric])

lemma relex_loop:
  "\<forall>k<length ts. fits (tok_type (ts ! k)) (tok_value (ts ! k)) (token_texts (drop (Suc k) ts)) \<Longrightarrow>
   0 \<le> indentLevel st \<Longrightarrow> emit_loop ts i st = Inr st' \<Longrightarrow> i \<le> length ts \<Longrightarrow>
   \<exists>body. result st' = result st @ body
      \<and> kinds_and_texts (tokenize_from 0 body) = drop i (kinds_and_texts ts)
      \<and> (i = length ts \<longrightarrow> body = [])
      \<and> (i < length ts \<longrightarrow> body \<noteq> []
            \<and> (hd body = hd (tok_value (ts ! i))
               \<or> (is_space (hd body)
                  \<and> (tok_type (ts ! i) = T_operator \<or> tok_type (ts ! i) = T_paren_close))))"
proof (induction ts i st rule: emit_loop.induct)
  case (1 tokens i st)
  show ?case
  proof (cases "i < length tokens")
    case False
    from "1.prems"(3) False have "st' = st" by (simp add: emit_loop.simps [of tokens i st])
    with "1.prems"(4) False show ?thesis by (simp add: kinds_and_texts_def)
  next
    case True
    let ?ty = "tok_type (tokens ! i)" and ?v = "tok_value (tokens ! i)"
    let ?L = "lead tokens i st" and ?T = "trail tokens i st"
    let ?r = "token_texts (drop (Suc i) tokens)"
    from "1.prems"(1) True have F: "fits ?ty ?v ?r" by simp
    then have v: "?v \<noteq> []" by (simp add: fits_def)
    from emit_token_text [OF "1.prems"(2) fits_not_ws [OF F]] obtain st1 where
      s1: "emit_token tokens i st = Inr st1" and l1: "0 \<le> indentLevel st1"
      and r1: "result st1 = result st @ ?L @ ?v @ ?T" by blast
    from "1.prems"(3) True s1 have e1: "emit_loop tokens (i + 1) st1 = Inr st'"
      by (simp add: emit_loop.simps [of tokens i st])
    from "1.IH" [OF True s1 "1.prems"(1) l1 e1] True obtain body where
      b: "result st' = result st1 @ body"
        "kinds_and_texts (tokenize_from 0 body) = drop (i + 1) (kinds_and_texts tokens)"
        "i + 1 = length tokens \<Longrightarrow> body = []"
        "i + 1 < length tokens \<Longrightarrow> body \<noteq> []
            \<and> (hd body = hd (tok_value (tokens ! (i + 1)))
               \<or> (is_space (hd body)
                  \<and> (tok_type (tokens ! (i + 1)) = T_operator
                     \<or> tok_type (tokens ! (i + 1)) = T_paren_close)))"
      by auto
    have F': "fits ?ty ?v (?T @ body)"
    proof (cases "i + 1 < length tokens")
      case False
      with True have l: "i + 1 = length tokens" by simp
      with trail_type [of tokens i st] have "?T = []" by auto
      with b(3) [OF l] F l show ?thesis by (simp add: token_texts_def)
    next
      case n: True
      let ?v1 = "tok_value (tokens ! (i + 1))" and ?ty1 = "tok_type (tokens ! (i + 1))"
      from "1.prems"(1) n have F1: "fits ?ty1 ?v1 (token_texts (drop (Suc (i + 1)) tokens))" by simp
      then have v1: "?v1 \<noteq> []" by (simp add: fits_def)
      from token_texts_drop [OF n] have r: "?r = ?v1 @ token_texts (drop (Suc (i + 1)) tokens)" by simp
      with v1 have rn: "?r \<noteq> []" and hr: "hd ?r = hd ?v1" by simp_all
      from b(4) [OF n] have bn: "?T @ body \<noteq> []" by simp
      have "hd (?T @ body) = hd ?r \<or> (is_space (hd (?T @ body)) \<and> ?ty \<noteq> T_function)"
      proof (cases "?T = []")
        case False
        with gap_blank [OF trail_gap, of tokens i st] trail_type [OF False]
        show ?thesis by (cases ?T) auto
      next
        case t: True
        show ?thesis
        proof (cases "?ty = T_function")
          case False
          with b(4) [OF n] t hr show ?thesis by auto
        next
          case f: True
          with F fits_function [of ?v ?r] hr have "hd ?v1 = CHR ''(''" by simp
          from fits_paren_open [OF F1 this] b(4) [OF n] t hr show ?thesis by auto
        qed
      qed
      from fits_change [OF F rn bn this] show ?thesis .
    qed
    have "kinds_and_texts (tokenize_from 0 (?L @ ?v @ ?T @ body))
            = kinds_and_texts (tokenize_from 0 (?v @ (?T @ body)))"
      by (rule tokenize_skip [OF gap_blank [OF lead_gap]])
    also have "\<dots> = (?ty, ?v) # kinds_and_texts (tokenize_from 0 (?T @ body))"
      by (rule fits_step [OF F'])
    also have "kinds_and_texts (tokenize_from 0 (?T @ body))
                 = kinds_and_texts (tokenize_from 0 body)"
      by (rule tokenize_skip [OF gap_blank [OF trail_gap]])
    also have "(?ty, ?v) # kinds_and_texts (tokenize_from 0 body)
                 = drop i (kinds_and_texts tokens)"
      using b(2) True by (simp add: kinds_and_texts_def Cons_nth_drop_Suc [symmetric] drop_map)
    finally have k: "kinds_and_texts (tokenize_from 0 (?L @ ?v @ ?T @ body))
                       = drop i (kinds_and_texts tokens)" .
    have h: "hd (?L @ ?v @ ?T @ body) = hd ?v
               \<or> (is_space (hd (?L @ ?v @ ?T @ body))
                  \<and> (?ty = T_operator \<or> ?ty = T_paren_close))"
    proof (cases "?L = []")
      case True
      with v show ?thesis by simp
    next
      case False
      with gap_blank [OF lead_gap, of tokens i st] lead_type [OF False]
      show ?thesis by (cases ?L) auto
    qed
    show ?thesis
      using b(1) r1 k h v True by (intro exI [of _ "?L @ ?v @ ?T @ body"]) simp
  qed
qed

text \<open>
  A formatted text that gives the same token kinds and texts as the formula is formatted
  to itself.
\<close>

lemma format_fixed_when_stable:
  assumes "formatAirtableFormula s = Inr r"
    and "kinds_and_texts (tokenize r) = kinds_and_texts (tokenize s)"
  shows "formatAirtableFormula r = Inr r"
proof (cases "trim s = []")
  case True
  with assms(1) have "r = []" by (simp add: formatAirtableFormula_def)
  then show ?thesis by (simp add: formatAirtableFormula_def trim_def)
next
  case False
  then have ne: "tokenize s \<noteq> []" by (simp add: trim_Nil_iff tokenize_def tokenize_from_Nil_iff)
  with assms(2) have ne': "tokenize r \<noteq> []" by (auto simp: kinds_and_texts_def)
  then have tr: "trim r \<noteq> []" by (simp add: trim_Nil_iff tokenize_def tokenize_from_Nil_iff)
  from emit_loop_cong [OF assms(2)]
  have "emit_loop (tokenize r) 0 init_state = emit_loop (tokenize s) 0 init_state" .
  with assms(1) False ne ne' tr show ?thesis
    by (simp add: formatAirtableFormula_def Let_def)
qed

lemma formatted_text_relexes:
  assumes c1: "kinds_and_texts (tokenize (token_texts (tokenize s))) = kinds_and_texts (tokenize s)"
    and c2: "list_all (\<lambda>t. tidy (tok_value t)) (tokenize s)"
  shows "\<exists>r. formatAirtableFormula s = Inr r
     \<and> kinds_and_texts (tokenize r) = kinds_and_texts (tokenize s)"
proof (cases "trim s = []")
  case True
  then have "tokenize s = []" by (simp add: trim_Nil_iff tokenize_def tokenize_from_Nil_iff)
  with True show ?thesis by (simp add: formatAirtableFormula_def tokenize_def)
next
  case False
  let ?ts = "tokenize s"
  from False have ne: "?ts \<noteq> []" by (simp add: trim_Nil_iff tokenize_def tokenize_from_Nil_iff)
  from c2 have td: "\<forall>t\<in>set ?ts. tidy (tok_value t)" by (simp add: list_all_iff)
  then have v: "\<forall>t\<in>set ?ts. tok_value t \<noteq> [] \<and> \<not> is_space (hd (tok_value t))"
    by (simp add: tidy_def)
  from c1 have c1': "kinds_and_texts (tokenize_from 0 (token_texts ?ts)) = kinds_and_texts ?ts"
    by (simp add: tokenize_def)
  have F: "\<forall>k<length ?ts. fits (tok_type (?ts ! k)) (tok_value (?ts ! k))
             (token_texts (drop (Suc k) ?ts))"
    using fits_all [OF c1' v] by blast
  have nw: "\<forall>t\<in>set ?ts. tok_type t \<noteq> T_whitespace"
  proof
    fix t
    assume "t \<in> set ?ts"
    then obtain k where k: "k < length ?ts" "t = ?ts ! k" by (auto simp: in_set_conv_nth)
    from F k(1) have "fits (tok_type (?ts ! k)) (tok_value (?ts ! k))
                        (token_texts (drop (Suc k) ?ts))" by simp
    from fits_not_ws [OF this] k(2) show "tok_type t \<noteq> T_whitespace" by simp
  qed
  obtain st where e: "emit_loop ?ts 0 init_state = Inr st"
    using emit_loop_ok [of init_state ?ts 0] by (auto simp: init_state_def)
  from td nw have "\<forall>t\<in>set ?ts. tidy (tok_value t) \<and> tok_type t \<noteq> T_whitespace" by simp
  from emitted_tidy [OF this ne e] have "cleanup (result st) = result st" by (rule cleanup_id)
  with e False ne have f: "formatAirtableFormula s = Inr (result st)"
    by (simp add: formatAirtableFormula_def Let_def)
  from relex_loop [OF F _ e] obtain body where
    "result st = result init_state @ body"
    "kinds_and_texts (tokenize_from 0 body) = drop 0 (kinds_and_texts ?ts)"
    by (auto simp: init_state_def)
  then have "kinds_and_texts (tokenize (result st)) = kinds_and_texts ?ts"
    by (simp add: init_state_def tokenize_def)
  with f show ?thesis by simp
qed

subsection \<open>The emission loop reads the segments only\<close>

text \<open>
  One turn of the loop depends on the token, on the layout kinds of its neighbours and on
  the count of top-level commas; so it gives the same for two adjacent tokens of the
  joined kinds as for one token with both texts, and the formatter gives the same text
  for two formulas with the same segments.
\<close>

lemma layout_kind_special [simp]:
  "layout_kind ty = T_paren_open \<longleftrightarrow> ty = T_paren_open"
  "layout_kind ty = T_paren_close \<longleftrightarrow> ty = T_paren_close"
  "layout_kind ty = T_comma \<longleftrightarrow> ty = T_comma"
  "layout_kind ty = T_operator \<longleftrightarrow> ty = T_operator"
  "layout_kind ty = T_whitespace \<longleftrightarrow> ty = T_whitespace"
  by (auto simp: layout_kind_def)

lemma count_loop_shape: "count_loop (map token_of (shape ts)) d n = count_loop ts d n"
  by (induction ts arbitrary: d n) (simp_all add: shape_def token_of_def Let_def)

lemma layout_kind_plain:
  "layout_kind ty = T_unknown \<longleftrightarrow>
     ty = T_function \<or> ty = T_field \<or> ty = T_string \<or> ty = T_number \<or> ty = T_unknown"
  by (auto simp: layout_kind_def)

lemma layout_kind_eq:
  "layout_kind a = layout_kind b \<Longrightarrow> layout_kind a \<noteq> T_unknown \<Longrightarrow> a = b"
  by (auto simp: layout_kind_def split: if_splits)

lemma layout_kind_cong:
  "layout_kind a = layout_kind b \<Longrightarrow>
     K = T_paren_open \<or> K = T_paren_close \<or> K = T_comma \<or> K = T_operator \<Longrightarrow>
     (a = K) = (b = K)"
  by (auto simp: layout_kind_def split: if_splits)

lemma emit_token_plain:
  "layout_kind (tok_type (ts ! i)) = T_unknown \<Longrightarrow>
     emit_token ts i st = Inr (st\<lparr>result := result st @ tok_value (ts ! i)\<rparr>)"
  unfolding layout_kind_plain by (elim disjE) (simp_all add: emit_token_def)

lemma emit_token_related:
  assumes k: "layout_kind (tok_type (ts ! i)) = layout_kind (tok_type (us ! j))"
    and v: "tok_value (ts ! i) = tok_value (us ! j)"
    and p: "prev_kind ts i = prev_kind us j"
    and n: "next_kind ts i = next_kind us j"
    and c: "countParameters ts i = countParameters us j"
  shows "emit_token ts i st = emit_token us j st"
proof (cases "layout_kind (tok_type (ts ! i)) = T_unknown")
  case True
  with k v show ?thesis by (simp add: emit_token_plain)
next
  case False
  from layout_kind_eq [OF k False] have t: "tok_type (ts ! i) = tok_type (us ! j)" .
  have e1: "(map_option tok_type (if 0 < i then Some (ts ! (i - 1)) else None) = Some K)
          = (map_option tok_type (if 0 < j then Some (us ! (j - 1)) else None) = Some K)"
    if "K = T_paren_open \<or> K = T_comma \<or> K = T_operator" for K
    using p that layout_kind_cong [of "tok_type (ts ! (i - 1))" "tok_type (us ! (j - 1))" K]
    by (cases "0 < i"; cases "0 < j") (auto simp: prev_kind_def)
  have e2: "((if 0 < i then Some (ts ! (i - 1)) else None) = None)
          = ((if 0 < j then Some (us ! (j - 1)) else None) = None)"
    using p by (auto simp: prev_kind_def split: if_splits)
  have e3: "(map_option tok_type (if i + 1 < length ts then Some (ts ! (i + 1)) else None) = Some K)
          = (map_option tok_type (if j + 1 < length us then Some (us ! (j + 1)) else None) = Some K)"
    if "K = T_paren_close \<or> K = T_comma \<or> K = T_operator" for K
    using n that layout_kind_cong [of "tok_type (ts ! (i + 1))" "tok_type (us ! (j + 1))" K]
    by (cases "i + 1 < length ts"; cases "j + 1 < length us") (auto simp: next_kind_def)
  have e4: "((if i + 1 < length ts then Some (ts ! (i + 1)) else None) = None)
          = ((if j + 1 < length us then Some (us ! (j + 1)) else None) = None)"
    using n by (auto simp: next_kind_def split: if_splits)
  have e5: "shouldBreakAfterParenOpen ts i = shouldBreakAfterParenOpen us j"
    using c by (simp add: shouldBreakAfterParenOpen_def)
  show ?thesis
    by (simp only: emit_token_def Let_def t v e1 e2 e3 e4 e5 simp_thms)
qed

lemma layout_kind_idem [simp]: "layout_kind (layout_kind ty) = layout_kind ty"
  by (simp add: layout_kind_def)

lemma emit_token_shape:
  assumes "i < length ts"
  shows "emit_token (map token_of (shape ts)) i st = emit_token ts i st"
proof (rule emit_token_related)
  show "layout_kind (tok_type (map token_of (shape ts) ! i)) = layout_kind (tok_type (ts ! i))"
    using assms by (simp add: shape_def token_of_def)
  show "tok_value (map token_of (shape ts) ! i) = tok_value (ts ! i)"
    using assms by (simp add: shape_def token_of_def)
  show "prev_kind (map token_of (shape ts)) i = prev_kind ts i"
    using assms by (simp add: prev_kind_def shape_def token_of_def)
  show "next_kind (map token_of (shape ts)) i = next_kind ts i"
    by (simp add: next_kind_def shape_def token_of_def)
  show "countParameters (map token_of (shape ts)) i = countParameters ts i"
    using count_loop_shape [of "drop (i + 1) ts" 1 0]
    by (simp add: countParameters_def shape_def drop_map)
qed

lemma emit_loop_shape: "emit_loop (map token_of (shape ts)) i st = emit_loop ts i st"
proof (induction ts i st rule: emit_loop.induct)
  case (1 tokens i st)
  have l: "length (map token_of (shape tokens)) = length tokens" by (simp add: shape_def)
  show ?case
  proof (cases "i < length tokens")
    case True
    note e = emit_token_shape [OF True, of st]
    show ?thesis
    proof (cases "emit_token tokens i st")
      case (Inl err)
      with e True l show ?thesis
        by (simp add: emit_loop.simps [of tokens i st]
            emit_loop.simps [of "map token_of (shape tokens)" i st])
    next
      case (Inr st1)
      from "1.IH" [OF True Inr] e True l Inr show ?thesis
        by (simp add: emit_loop.simps [of tokens i st]
            emit_loop.simps [of "map token_of (shape tokens)" i st])
    qed
  next
    case False
    with l show ?thesis
      by (simp add: emit_loop.simps [of tokens i st]
          emit_loop.simps [of "map token_of (shape tokens)" i st])
  qed
qed

lemma emit_token_shift:
  assumes "0 < k"
  shows "emit_token (x # ys) (Suc k) st = emit_token ys k st"
proof (rule emit_token_related)
  from assms obtain k' where k: "k = Suc k'" by (cases k) auto
  show "prev_kind (x # ys) (Suc k) = prev_kind ys k" by (simp add: prev_kind_def k)
  show "next_kind (x # ys) (Suc k) = next_kind ys k" by (simp add: next_kind_def)
  show "countParameters (x # ys) (Suc k) = countParameters ys k" by (simp add: countParameters_def)
qed simp_all

lemma emit_loop_shift: "0 < k \<Longrightarrow> emit_loop (x # ys) (Suc k) st = emit_loop ys k st"
proof (induction ys k st rule: emit_loop.induct)
  case (1 tokens i st)
  show ?case
  proof (cases "i < length tokens")
    case True
    note e = emit_token_shift [OF "1.prems", of x tokens st]
    show ?thesis
    proof (cases "emit_token tokens i st")
      case (Inl err)
      with e True show ?thesis
        by (simp add: emit_loop.simps [of tokens i st]
            emit_loop.simps [of "x # tokens" "Suc i" st])
    next
      case (Inr st1)
      from "1.IH" [OF True Inr] e True Inr show ?thesis
        by (simp add: emit_loop.simps [of tokens i st]
            emit_loop.simps [of "x # tokens" "Suc i" st])
    qed
  next
    case False
    then show ?thesis
      by (simp add: emit_loop.simps [of tokens i st]
          emit_loop.simps [of "x # tokens" "Suc i" st])
  qed
qed

lemma emit_from_Nil: "emit_from po [] st = Inr st"
  by (cases po) (simp_all add: emit_from_def emit_loop.simps [of _ _ st])

lemma emit_from_Cons:
  "emit_from po (t # ts) st =
     (case emit_first po t ts st of Inl e \<Rightarrow> Inl e | Inr st1 \<Rightarrow> emit_from (Some t) ts st1)"
proof (cases po)
  case None
  then show ?thesis
    by (simp add: emit_from_def emit_first_def emit_loop.simps [of "t # ts" 0 st]
        split: sum.splits)
next
  case (Some p)
  have "emit_loop (p # t # ts) (Suc (Suc 0)) st1 = emit_loop (t # ts) (Suc 0) st1" for st1
    using emit_loop_shift [of "Suc 0" p "t # ts" st1] by simp
  with Some show ?thesis
    by (simp add: emit_from_def emit_first_def emit_loop.simps [of "p # t # ts" "Suc 0" st]
        split: sum.splits)
qed

lemma emit_first_next:
  assumes "hd_kind ts = hd_kind us" "count_loop ts 1 0 = count_loop us 1 0"
  shows "emit_first po x ts st = emit_first po x us st"
proof (cases po)
  case None
  have "emit_token (x # ts) 0 st = emit_token (x # us) 0 st"
  proof (rule emit_token_related)
    show "next_kind (x # ts) 0 = next_kind (x # us) 0"
      using assms(1) by (cases ts; cases us) (simp_all add: next_kind_def hd_kind_def)
    show "countParameters (x # ts) 0 = countParameters (x # us) 0"
      using assms(2) by (simp add: countParameters_def)
  qed (simp_all add: prev_kind_def)
  with None show ?thesis by (simp add: emit_first_def)
next
  case (Some p)
  have "emit_token (p # x # ts) 1 st = emit_token (p # x # us) 1 st"
  proof (rule emit_token_related)
    show "next_kind (p # x # ts) 1 = next_kind (p # x # us) 1"
      using assms(1) by (cases ts; cases us) (simp_all add: next_kind_def hd_kind_def)
    show "countParameters (p # x # ts) 1 = countParameters (p # x # us) 1"
      using assms(2) by (simp add: countParameters_def)
  qed (simp_all add: prev_kind_def)
  with Some show ?thesis by (simp add: emit_first_def)
qed

lemma emit_first_prev:
  assumes "layout_kind (tok_type p) = layout_kind (tok_type p')"
  shows "emit_first (Some p) t ts st = emit_first (Some p') t ts st"
proof -
  have "emit_token (p # t # ts) 1 st = emit_token (p' # t # ts) 1 st"
  proof (rule emit_token_related)
    show "prev_kind (p # t # ts) 1 = prev_kind (p' # t # ts) 1"
      using assms by (simp add: prev_kind_def)
    show "next_kind (p # t # ts) 1 = next_kind (p' # t # ts) 1" by (simp add: next_kind_def)
    show "countParameters (p # t # ts) 1 = countParameters (p' # t # ts) 1"
      by (simp add: countParameters_def)
  qed simp_all
  then show ?thesis by (simp add: emit_first_def)
qed

lemma emit_from_prev:
  assumes "layout_kind (tok_type p) = layout_kind (tok_type p')"
  shows "emit_from (Some p) ts st = emit_from (Some p') ts st"
proof (cases ts)
  case Nil
  then show ?thesis by (simp add: emit_from_Nil)
next
  case (Cons t ts')
  with emit_first_prev [OF assms, of t ts' st] show ?thesis by (simp add: emit_from_Cons)
qed

lemma emit_first_plain:
  "layout_kind (tok_type t) = T_unknown \<Longrightarrow>
     emit_first po t ts st = Inr (st\<lparr>result := result st @ tok_value t\<rparr>)"
  by (cases po) (simp_all add: emit_first_def emit_token_plain)

lemma emit_first_operator:
  assumes "tok_type t = T_operator"
  shows "emit_first po t ts st =
     Inr (st\<lparr>result :=
        (if po \<noteq> None \<and> tok_type (the po) \<noteq> T_paren_open \<and> tok_type (the po) \<noteq> T_comma
             \<and> tok_type (the po) \<noteq> T_operator \<and> \<not> ends_blank (result st)
         then result st @ [CHR 0x20] else result st) @ tok_value t
        @ (if ts \<noteq> [] \<and> tok_type (hd ts) \<noteq> T_paren_close \<and> tok_type (hd ts) \<noteq> T_comma
               \<and> tok_type (hd ts) \<noteq> T_operator
           then [CHR 0x20] else [])\<rparr>)"
  using assms by (cases po; cases ts) (simp_all add: emit_first_def emit_token_def)

lemma emit_from_merge:
  assumes k: "tok_type a = k" "tok_type b = k" "tok_type m = k" "k = T_unknown \<or> k = T_operator"
    and v: "tok_value m = tok_value a @ tok_value b"
  shows "emit_from po (a # b # ts) st = emit_from po (m # ts) st"
proof -
  have c: "emit_from (Some b) ts st' = emit_from (Some m) ts st'" for st'
    using k by (intro emit_from_prev) simp
  from k(4) show ?thesis
  proof
    assume u: "k = T_unknown"
    with k have "layout_kind (tok_type a) = T_unknown" "layout_kind (tok_type b) = T_unknown"
      "layout_kind (tok_type m) = T_unknown" by (simp_all add: layout_kind_def)
    then show ?thesis using v c by (simp add: emit_from_Cons emit_first_plain)
  next
    assume o: "k = T_operator"
    with k have t: "tok_type a = T_operator" "tok_type b = T_operator" "tok_type m = T_operator"
      by simp_all
    show ?thesis
      using v c t
      by (simp add: emit_from_Cons emit_first_operator [OF t(1)] emit_first_operator [OF t(2)]
          emit_first_operator [OF t(3)])
  qed
qed

lemma segments_Nil_iff [simp]: "segments xs = [] \<longleftrightarrow> xs = []"
  by (induction xs rule: segments.induct) auto

lemma segments_hd: "xs \<noteq> [] \<Longrightarrow> fst (hd (segments xs)) = fst (hd xs)"
  by (induction xs rule: segments.induct) auto

lemma hd_kind_segments: "hd_kind (map token_of (segments xs)) = hd_kind (map token_of xs)"
proof (cases xs)
  case Nil
  then show ?thesis by simp
next
  case (Cons x xs')
  then have "segments xs \<noteq> []" by simp
  then obtain y ys where y: "segments xs = y # ys" by (cases "segments xs") auto
  with segments_hd [of xs] Cons show ?thesis by (simp add: hd_kind_def token_of_def)
qed

lemma count_loop_segments: "count_loop (map token_of (segments xs)) d n = count_loop (map token_of xs) d n"
  by (induction xs arbitrary: d n rule: segments.induct) (auto simp: token_of_def Let_def)

lemma emit_from_segments: "emit_from po (map token_of (segments xs)) st = emit_from po (map token_of xs) st"
proof (induction xs arbitrary: po st rule: segments.induct)
  case (1 k u k' v rest)
  show ?case
  proof (cases "k = k' \<and> (k = T_unknown \<or> k = T_operator)")
    case True
    then have s: "segments ((k, u) # (k', v) # rest) = segments ((k, u @ v) # rest)" by auto
    have m: "emit_from po (token_of (k, u) # token_of (k', v) # map token_of rest) st
            = emit_from po (token_of (k, u @ v) # map token_of rest) st"
      using True by (intro emit_from_merge [of _ k]) (auto simp: token_of_def)
    show ?thesis unfolding s using "1.IH"(1) [OF True, of po st] m by simp
  next
    case False
    let ?Y = "map token_of ((k', v) # rest)" and ?Y' = "map token_of (segments ((k', v) # rest))"
    have f: "emit_first po (token_of (k, u)) ?Y' st = emit_first po (token_of (k, u)) ?Y st"
      by (rule emit_first_next [OF hd_kind_segments count_loop_segments])
    from False have s: "segments ((k, u) # (k', v) # rest) = (k, u) # segments ((k', v) # rest)"
      by auto
    have "emit_from po (token_of (k, u) # ?Y') st = emit_from po (token_of (k, u) # ?Y) st"
      using "1.IH"(2) [OF False, of "Some (token_of (k, u))"] f
      by (simp add: emit_from_Cons split: sum.splits)
    then show ?thesis unfolding s by simp
  qed
next
  case (2 x)
  then show ?case by simp
next
  case 3
  then show ?case by simp
qed

lemma emit_loop_segments:
  assumes "segments (shape ts) = segments (shape us)"
  shows "emit_loop ts 0 st = emit_loop us 0 st"
proof -
  have "emit_loop ts 0 st = emit_from None (map token_of (shape ts)) st" for ts
    by (simp add: emit_from_def emit_loop_shape)
  then show ?thesis using assms emit_from_segments [of None "shape ts" st]
    emit_from_segments [of None "shape us" st] by simp
qed

lemma format_same_segments:
  assumes "segments (shape (tokenize s)) = segments (shape (tokenize s0))"
  shows "formatAirtableFormula s = formatAirtableFormula s0"
proof -
  have t: "trim x = [] \<longleftrightarrow> tokenize x = []" for x
    by (simp add: trim_Nil_iff tokenize_def tokenize_from_Nil_iff)
  from assms have "segments (shape (tokenize s)) = [] \<longleftrightarrow> segments (shape (tokenize s0)) = []"
    by simp
  then have e: "tokenize s = [] \<longleftrightarrow> tokenize s0 = []" by (simp add: shape_def)
  show ?thesis
    using e emit_loop_segments [OF assms, of init_state]
    by (simp add: formatAirtableFormula_def t Let_def)
qed

text \<open>
  Claim C2, amended. Formatting twice gives the same text as formatting once for every
  formula \<open>s\<close> that has the segments of a formula \<open>s0\<close> meeting two conditions, all of
  them on the formulas themselves. First, the whitespace between the tokens of \<open>s0\<close> does
  not matter to the layout lexer: written without it, \<open>s0\<close> gives the same token kinds
  and texts. Second, every token text of \<open>s0\<close> is tidy. Then \<open>s\<close> and \<open>s0\<close> are formatted
  to the same text, that text is formatted to itself, and the layout lexer reads it back
  as the tokens of \<open>s0\<close>. The formula \<open>s0\<close> may be \<open>s\<close> itself. The parentheses need not
  be balanced and the literals need not be terminated.
\<close>

theorem format_idempotent_same_segments:
  assumes "segments (shape (tokenize s)) = segments (shape (tokenize s0))"
    and "kinds_and_texts (tokenize (token_texts (tokenize s0))) = kinds_and_texts (tokenize s0)"
    and "list_all (\<lambda>t. tidy (tok_value t)) (tokenize s0)"
  shows "format_twice s = formatAirtableFormula s
     \<and> formatAirtableFormula s = formatAirtableFormula s0
     \<and> (\<exists>r. formatAirtableFormula s = Inr r \<and> formatAirtableFormula r = Inr r
            \<and> kinds_and_texts (tokenize r) = kinds_and_texts (tokenize s0))"
proof -
  from formatted_text_relexes [OF assms(2,3)] obtain r where
    r: "formatAirtableFormula s0 = Inr r"
      "kinds_and_texts (tokenize r) = kinds_and_texts (tokenize s0)" by blast
  note f = format_fixed_when_stable [OF r]
  note e = format_same_segments [OF assms(1)]
  from e r f show ?thesis by (simp add: format_twice_def)
qed

theorem format_idempotent_same_segments_witness:
  \<open>segments (shape (tokenize respaced_formula)) = segments (shape (tokenize joined_formula))
   \<and> kinds_and_texts (tokenize (token_texts (tokenize joined_formula)))
       = kinds_and_texts (tokenize joined_formula)
   \<and> list_all (\<lambda>t. tidy (tok_value t)) (tokenize joined_formula)
   \<and> kinds_and_texts (tokenize respaced_formula) \<noteq> kinds_and_texts (tokenize joined_formula)
   \<and> format_twice respaced_formula = formatAirtableFormula respaced_formula
   \<and> formatAirtableFormula respaced_formula =
       Inr (''IF('' @ [CHR 0x0A, CHR 0x09] @ ''{a} >= 1,''
            @ [CHR 0x0A, CHR 0x09] @ ''12'' @ [CHR 0x0A] @ '')'')
   \<and> kinds_and_texts (tokenize (token_texts (tokenize spaced_formula)))
       = kinds_and_texts (tokenize spaced_formula)
   \<and> list_all (\<lambda>t. tidy (tok_value t)) (tokenize spaced_formula)
   \<and> format_twice spaced_formula = formatAirtableFormula spaced_formula
   \<and> formatAirtableFormula spaced_formula =
       Inr (''IF('' @ [CHR 0x0A, CHR 0x09] @ ''{a} >= 1,''
            @ [CHR 0x0A, CHR 0x09] @ ''SUM('' @ [CHR 0x0A, CHR 0x09, CHR 0x09] @ ''x,''
            @ [CHR 0x0A, CHR 0x09, CHR 0x09] @ ''y'' @ [CHR 0x0A, CHR 0x09] @ ''),''
            @ [CHR 0x0A, CHR 0x09] @ ''"b c"'' @ [CHR 0x0A] @ '')'')\<close>
proof -
  have a1: "segments (shape (tokenize respaced_formula))
              = segments (shape (tokenize joined_formula))"
    by code_simp
  have a2: "kinds_and_texts (tokenize (token_texts (tokenize joined_formula)))
              = kinds_and_texts (tokenize joined_formula)"
    by code_simp
  have a3: "list_all (\<lambda>t. tidy (tok_value t)) (tokenize joined_formula)"
    by code_simp
  have a4: "kinds_and_texts (tokenize respaced_formula)
              \<noteq> kinds_and_texts (tokenize joined_formula)"
    by code_simp
  have a5: "formatAirtableFormula respaced_formula =
       Inr (''IF('' @ [CHR 0x0A, CHR 0x09] @ ''{a} >= 1,''
            @ [CHR 0x0A, CHR 0x09] @ ''12'' @ [CHR 0x0A] @ '')'')"
    by code_simp
  have b1: "segments (shape (tokenize spaced_formula)) = segments (shape (tokenize spaced_formula))"
    by (rule refl)
  have b2: "kinds_and_texts (tokenize (token_texts (tokenize spaced_formula)))
     = kinds_and_texts (tokenize spaced_formula)"
    by code_simp
  have b3: "list_all (\<lambda>t. tidy (tok_value t)) (tokenize spaced_formula)"
    by code_simp
  have b4: \<open>formatAirtableFormula spaced_formula =
       Inr (''IF('' @ [CHR 0x0A, CHR 0x09] @ ''{a} >= 1,''
            @ [CHR 0x0A, CHR 0x09] @ ''SUM('' @ [CHR 0x0A, CHR 0x09, CHR 0x09] @ ''x,''
            @ [CHR 0x0A, CHR 0x09, CHR 0x09] @ ''y'' @ [CHR 0x0A, CHR 0x09] @ ''),''
            @ [CHR 0x0A, CHR 0x09] @ ''"b c"'' @ [CHR 0x0A] @ '')'')\<close>
    by code_simp
  from format_idempotent_same_segments [OF a1 a2 a3]
    format_idempotent_same_segments [OF b1 b2 b3] a1 a2 a3 a4 a5 b2 b3 b4
  show ?thesis by blast
qed

text \<open>
  Formulas whose tokens merge when the whitespace between them goes have the segments of
  the merged formula, so they fall under the amended claim; the formula \<^verbatim>\<open>sum (x)\<close> of
  the counterexample does not, because the merged name is upper-cased.
\<close>

lemma same_segments_examples:
  "segments (shape (tokenize ''a = = b'')) = segments (shape (tokenize ''a==b''))
   \<and> format_twice ''a = = b'' = formatAirtableFormula ''a = = b''
   \<and> segments (shape (tokenize ''1 2'')) = segments (shape (tokenize ''12''))
   \<and> format_twice ''1 2'' = formatAirtableFormula ''1 2''
   \<and> segments (shape (tokenize ''SUM (x)'')) = segments (shape (tokenize ''SUM(x)''))
   \<and> format_twice ''SUM (x)'' = formatAirtableFormula ''SUM (x)''
   \<and> segments (shape (tokenize ''sum (x)'')) \<noteq> segments (shape (tokenize ''sum(x)''))"
  by code_simp

text \<open>
  Where a token text is not tidy the second pass may differ as well: the cleanup pass
  changes the inside of a string literal, and one pass does not finish the job.
\<close>

lemma format_twice_spaces_example:
  \<open>formatAirtableFormula ''"a  b  c"'' = Inr ''"a b  c"''
   \<and> format_twice ''"a  b  c"'' = Inr ''"a b c"''\<close>
  by code_simp

section \<open>The cleanup pass on runs of whitespace\<close>

text \<open>
  Claim C8. The claim says that runs of two or more spaces inside a line, never tabs, are
  collapsed, each of them. The pattern of the source takes any whitespace for the run, so
  two tabs between \<^verbatim>\<open>a\<close> and \<^verbatim>\<open>b\<close> become one space; and a match consumes the character
  after the run, so of two runs with one character between them only the first is
  collapsed.
\<close>

theorem cleanup_collapse_examples:
  \<open>formatAirtableFormula (''"a'' @ [CHR 0x09, CHR 0x09] @ ''b"'') = Inr ''"a b"''
   \<and> formatAirtableFormula ''"a  b  c"'' = Inr ''"a b  c"''\<close>
  by code_simp

section \<open>Worked examples\<close>

text \<open>
  Claim C5. The function name is upper-cased, each argument stands on its own line behind
  one tab, the comparison has one space on each side and the closing parenthesis stands
  on a line of its own.
\<close>

theorem format_if_example:
  \<open>formatAirtableFormula ''if({Status}="Active",1,0)'' =
     Inr (''IF('' @ [CHR 0x0A, CHR 0x09] @ ''{Status} = "Active",''
          @ [CHR 0x0A, CHR 0x09] @ ''1,'' @ [CHR 0x0A, CHR 0x09] @ ''0''
          @ [CHR 0x0A] @ '')'')\<close>
  by code_simp

end
